theory Spec2Isabelle
  imports Main "HOL-Library.List_Lexorder" "HOL-Library.Multiset"
begin

section \<open>The array primitives used by \<^verbatim>\<open>bioframe/arrops.py\<close>\<close>

text \<open>
  The interval routines of \<^verbatim>\<open>arrops.py\<close> are straight-line programs over
  one-dimensional numpy arrays.  An array is modelled as a list, a coordinate as an
  integer (the data model of the specification: "start/end may be any finite integer"), a
  boolean mask as a \<open>bool list\<close>, and an exception as the left summand of a sum
  type.  Each numpy primitive the source calls is given once, below, with the failure
  numpy raises written out as a branch.

  The arrays of the routines are numpy \<^verbatim>\<open>int64\<close> arrays: a value between
  \<open>-2^63\<close> and \<open>2^63 - 1\<close> is held as \<^verbatim>\<open>int64\<close>, and a sum, a difference or a
  negation of such values wraps around modulo \<open>2^64\<close>, as numpy computes it.  A value
  outside that range cannot be held by an \<^verbatim>\<open>int64\<close> array; numpy keeps it as a
  Python integer, whose arithmetic is exact.  Positions in an array and counts of elements
  are exact: they are bounded by the size of an array that exists.

  Not represented: a floating-point \<open>min_dist\<close> (the Merger's \<open>min_dist\<close> is an
  integer or \<^verbatim>\<open>None\<close> here), the warning the routines print for a
  \<^verbatim>\<open>pandas.Series\<close> argument (it changes no result), and the text of the messages
  of the errors numpy raises.  \<^verbatim>\<open>np.bool\<close> is numpy's boolean type.
\<close>

text \<open>An error is the exception raised.  A \<^verbatim>\<open>ValueError\<close> carries its message when
  the source raises it itself, and is marked as numpy's otherwise.\<close>

datatype raised_by = Source string | Numpy

datatype error = ValueError raised_by | IndexError | TypeError

text \<open>The \<^verbatim>\<open>int64\<close> range, the wrap-around into it, and the arithmetic on two values
  (one value) of an array: wrapped when the operands are \<^verbatim>\<open>int64\<close> values, exact
  otherwise.\<close>

definition in64 :: "int \<Rightarrow> bool" where
  "in64 x = (- (2 ^ 63) \<le> x \<and> x < 2 ^ 63)"

definition wrap64 :: "int \<Rightarrow> int" where
  "wrap64 x = (x + 2 ^ 63) mod 2 ^ 64 - 2 ^ 63"

definition add64 :: "int \<Rightarrow> int \<Rightarrow> int" where
  "add64 x y = (if in64 x \<and> in64 y then wrap64 (x + y) else x + y)"

definition sub64 :: "int \<Rightarrow> int \<Rightarrow> int" where
  "sub64 x y = (if in64 x \<and> in64 y then wrap64 (x - y) else x - y)"

definition neg64 :: "int \<Rightarrow> int" where
  "neg64 x = (if in64 x then wrap64 (- x) else - x)"

text \<open>The conversion of an \<^verbatim>\<open>int64\<close> value to \<^verbatim>\<open>float64\<close>, which has 53
  significant bits: a value of magnitude below \<open>2^53\<close> is kept, a larger one is rounded
  to the nearest multiple of the spacing of the \<^verbatim>\<open>float64\<close> values at its magnitude
  (2 from \<open>2^53\<close>, 4 from \<open>2^54\<close>, and so on), a tie going to the even multiple.  The
  result is again an integer.\<close>

function float_spacing :: "int \<Rightarrow> int" where
  "float_spacing a = (if a < 2 ^ 53 then 1 else 2 * float_spacing (a div 2))"
  by pat_completeness auto
termination
  by (relation "measure nat") auto

declare float_spacing.simps [simp del]

definition round_half_even :: "int \<Rightarrow> int \<Rightarrow> int" where
  "round_half_even a q =
     (let r = a mod q; b = a - r
      in if 2 * r < q then b
         else if 2 * r > q then b + q
         else if even (b div q) then b else b + q)"

definition to_float64 :: "int \<Rightarrow> int" where
  "to_float64 x =
     (if in64 x then sgn x * round_half_even \<bar>x\<bar> (float_spacing \<bar>x\<bar>) else x)"

definition ebind :: "error + 'a \<Rightarrow> ('a \<Rightarrow> error + 'b) \<Rightarrow> error + 'b" where
  "ebind m f = (case m of Inl e \<Rightarrow> Inl e | Inr v \<Rightarrow> f v)"

text \<open>\<^verbatim>\<open>np.lexsort(keys)\<close>: a stable indirect sort, the last key being the
  primary one; keys of different lengths are refused.\<close>

definition lexsort :: "int list list \<Rightarrow> error + nat list" where
  "lexsort keys =
     (if keys = [] then Inl TypeError
      else if list_all (\<lambda>k. length k = length (hd keys)) keys
      then Inr (sort_key (\<lambda>i. map (\<lambda>k. k ! i) (rev keys)) [0..<length (hd keys)])
      else Inl (ValueError Numpy))"

text \<open>\<^verbatim>\<open>np.argsort(a)\<close> with numpy's default sort returns some permutation that
  sorts \<open>a\<close> and does not promise the order of equal keys.  The routines that call it
  take it as a parameter \<open>asort\<close>; \<open>stable_argsort\<close> is one such function.\<close>

definition stable_argsort :: "int list \<Rightarrow> nat list" where
  "stable_argsort a = sort_key (\<lambda>i. a ! i) [0..<length a]"

text \<open>\<^verbatim>\<open>a[order]\<close> for an index array produced by a sort of \<open>a\<close>'s own
  length (every index is in range).\<close>

definition take_idx :: "'a list \<Rightarrow> nat list \<Rightarrow> 'a list" where
  "take_idx a order = map (\<lambda>i. a ! i) order"

text \<open>\<^verbatim>\<open>a[idx]\<close> for a computed integer index array: a negative index counts
  from the end, an index out of range raises \<^verbatim>\<open>IndexError\<close>.\<close>

definition fancy_index :: "'a list \<Rightarrow> int list \<Rightarrow> error + 'a list" where
  "fancy_index a idx =
     (if list_all (\<lambda>i. - int (length a) \<le> i \<and> i < int (length a)) idx
      then Inr (map (\<lambda>i. a ! nat (if i < 0 then i + int (length a) else i)) idx)
      else Inl IndexError)"

text \<open>\<^verbatim>\<open>a[mask]\<close> for a boolean mask of \<open>a\<close>'s length.\<close>

definition mask_select :: "'a list \<Rightarrow> bool list \<Rightarrow> 'a list" where
  "mask_select a bs = map fst (filter snd (zip a bs))"

text \<open>\<^verbatim>\<open>np.searchsorted(a, v, side)\<close> on an ascending array: the number of
  elements below \<open>v\<close> (\<^verbatim>\<open>"left"\<close>), or not above it (\<^verbatim>\<open>"right"\<close>).\<close>

definition searchsorted_left :: "int list \<Rightarrow> int \<Rightarrow> nat" where
  "searchsorted_left a v = length (filter (\<lambda>x. x < v) a)"

definition searchsorted_right :: "int list \<Rightarrow> int \<Rightarrow> nat" where
  "searchsorted_right a v = length (filter (\<lambda>x. x \<le> v) a)"

text \<open>\<^verbatim>\<open>np.maximum.accumulate\<close> and \<^verbatim>\<open>cumsum\<close>.\<close>

fun maximum_accumulate_from :: "int \<Rightarrow> int list \<Rightarrow> int list" where
  "maximum_accumulate_from m [] = []"
| "maximum_accumulate_from m (x # xs) = max m x # maximum_accumulate_from (max m x) xs"

fun maximum_accumulate :: "int list \<Rightarrow> int list" where
  "maximum_accumulate [] = []"
| "maximum_accumulate (x # xs) = x # maximum_accumulate_from x xs"

fun cumsum_from :: "int \<Rightarrow> int list \<Rightarrow> int list" where
  "cumsum_from acc [] = []"
| "cumsum_from acc (x # xs) = (acc + x) # cumsum_from (acc + x) xs"

definition cumsum :: "int list \<Rightarrow> int list" where
  "cumsum xs = cumsum_from 0 xs"

text \<open>Elementwise arithmetic of two arrays, with numpy's broadcasting of a
  one-element operand.\<close>

definition broadcast2 :: "(int \<Rightarrow> int \<Rightarrow> int) \<Rightarrow> int list \<Rightarrow> int list \<Rightarrow> error + int list" where
  "broadcast2 f xs ys =
     (if length xs = length ys then Inr (map2 f xs ys)
      else if length xs = 1 then Inr (map (f (hd xs)) ys)
      else if length ys = 1 then Inr (map (\<lambda>x. f x (hd ys)) xs)
      else Inl (ValueError Numpy))"

text \<open>\<^verbatim>\<open>np.repeat(a, repeats)\<close>.  A one-element \<open>repeats\<close> is broadcast: the
  output has \<open>repeats[0] * len(a)\<close> elements, and a negative size is refused when the
  output is allocated.  Otherwise \<open>repeats\<close> must be as long as \<open>a\<close>, and a negative
  count is refused.\<close>

definition np_repeat :: "'a list \<Rightarrow> int list \<Rightarrow> error + 'a list" where
  "np_repeat a repeats =
     (if length repeats = 1
      then (if hd repeats * int (length a) < 0 then Inl (ValueError Numpy)
            else Inr (concat (map (\<lambda>x. replicate (nat (hd repeats)) x) a)))
      else if length repeats \<noteq> length a then Inl (ValueError Numpy)
      else if list_ex (\<lambda>r. r < 0) repeats then Inl (ValueError Numpy)
      else Inr (concat (map2 (\<lambda>x r. replicate (nat r) x) a repeats)))"

text \<open>Python's \<^verbatim>\<open>a[lo:hi]\<close>: a negative bound counts from the end, both bounds
  are clamped to the array, \<^verbatim>\<open>None\<close> as upper bound is the end.\<close>

definition clamp_index :: "nat \<Rightarrow> int \<Rightarrow> nat" where
  "clamp_index n i = (if i < 0 then nat (max 0 (int n + i)) else min n (nat i))"

definition py_slice :: "'a list \<Rightarrow> int \<Rightarrow> int option \<Rightarrow> 'a list" where
  "py_slice a lo hi =
     (let n = length a;
          l = clamp_index n lo;
          h = (case hi of None \<Rightarrow> n | Some j \<Rightarrow> clamp_index n j)
      in take (h - l) (drop l a))"

text \<open>\<^verbatim>\<open>a[1:-1] = vs\<close>, for \<open>vs\<close> as long as the slice.\<close>

definition assign_inner :: "'a list \<Rightarrow> 'a list \<Rightarrow> 'a list" where
  "assign_inner a vs = take 1 a @ vs @ drop (max 1 (length a - 1)) a"

text \<open>\<^verbatim>\<open>a[order] = vs\<close>: the values scattered to the positions \<open>order\<close>
  names.\<close>

definition scatter :: "'a list \<Rightarrow> nat list \<Rightarrow> 'a list \<Rightarrow> 'a list" where
  "scatter a order vs = fold (\<lambda>(i, v) acc. acc[i := v]) (zip order vs) a"

section \<open>Range Expander: \<^verbatim>\<open>arange_multi\<close>\<close>

text \<open>The \<open>starts\<close> argument is an array or, as the source allows with
  \<^verbatim>\<open>np.isscalar\<close>, one number.\<close>

datatype starts_arg = Scalar int | Array "int list"

text \<open>The arrays given to one call are \<^verbatim>\<open>int64\<close> arrays when every value of them
  is an \<^verbatim>\<open>int64\<close> value; then the differences \<open>stops - starts\<close> and the sums of
  start and counter wrap around.\<close>

definition int64_arrays :: "int list \<Rightarrow> int list \<Rightarrow> bool" where
  "int64_arrays xs ys = (list_all in64 xs \<and> list_all in64 ys)"

definition wrap_if :: "bool \<Rightarrow> int \<Rightarrow> int" where
  "wrap_if w x = (if w then wrap64 x else x)"

text \<open>Lines 74--85: repeat each start, build the counter that restarts in every group,
  add the two.  \<open>w\<close> tells whether the arrays are \<^verbatim>\<open>int64\<close> arrays.  The
  counter is made of positions in the output.\<close>

definition cat_range :: "bool \<Rightarrow> int list \<Rightarrow> int list \<Rightarrow> error + int list" where
  "cat_range w starts lengths =
     ebind (np_repeat starts lengths) (\<lambda>cat_start.
     ebind (np_repeat (map2 (-) (cumsum lengths) lengths) lengths) (\<lambda>offsets.
     ebind (broadcast2 (-) (map int [0..<nat (sum_list lengths)]) offsets) (\<lambda>cat_counter.
     broadcast2 (\<lambda>a c. wrap_if w (a + c)) cat_start cat_counter)))"

text \<open>Lines 65--72: the mutual-exclusivity check, the lengths from the stops, and the
  scalar start filled to \<^verbatim>\<open>len(stops)\<close> (which is \<^verbatim>\<open>len(None)\<close>, a
  \<^verbatim>\<open>TypeError\<close>, when only lengths were given).\<close>

definition arange_multi :: "starts_arg \<Rightarrow> int list option \<Rightarrow> int list option \<Rightarrow> error + int list" where
  "arange_multi starts stops lengths =
     (case (stops, lengths) of
        (None, None) \<Rightarrow> Inl (ValueError (Source ''Either stops or lengths must be provided!''))
      | (Some st, Some ls) \<Rightarrow> Inl (ValueError (Source ''Either stops or lengths must be provided!''))
      | (Some st, None) \<Rightarrow>
          (case starts of
             Scalar s \<Rightarrow>
               (let w = int64_arrays [s] st
                in cat_range w (replicate (length st) s) (map (\<lambda>e. wrap_if w (e - s)) st))
           | Array ss \<Rightarrow>
               (let w = int64_arrays ss st
                in ebind (broadcast2 (\<lambda>e s. wrap_if w (e - s)) st ss) (\<lambda>ls. cat_range w ss ls)))
      | (None, Some ls) \<Rightarrow>
          (case starts of
             Scalar s \<Rightarrow> Inl TypeError
           | Array ss \<Rightarrow> cat_range (int64_arrays ss ls) ss ls))"

section \<open>Interval Merger: \<^verbatim>\<open>merge_intervals\<close>\<close>

text \<open>\<open>min_dist\<close> is \<open>Some d\<close> for an integer distance and \<open>None\<close> for Python's
  \<^verbatim>\<open>None\<close>.  The three returned arrays are the ones line 229 returns:
  \<^verbatim>\<open>cluster_ids_sorted, cluster_starts, cluster_ends\<close>.  The array
  \<^verbatim>\<open>cluster_ids\<close> of lines 223--224 is computed and not returned.  The sum
  \<^verbatim>\<open>ends[:-1] + min_dist\<close> of line 218 is numpy's: it wraps around.\<close>

definition cluster_borders_inner :: "int option \<Rightarrow> int list \<Rightarrow> int list \<Rightarrow> bool list" where
  "cluster_borders_inner min_dist starts ends =
     (case min_dist of
        Some d \<Rightarrow> map2 (\<lambda>s e. s > add64 e d) (tl starts) (butlast ends)
      | None \<Rightarrow> map2 (\<lambda>s e. s \<ge> e) (tl starts) (butlast ends))"

definition merge_intervals :: "int list \<Rightarrow> int list \<Rightarrow> int option \<Rightarrow> error + (int list \<times> int list \<times> int list)" where
  "merge_intervals starts0 ends0 min_dist =
     ebind (lexsort [ends0, starts0]) (\<lambda>order.
       let starts = take_idx starts0 order;
           ends = take_idx ends0 order;
           ends = maximum_accumulate ends;
           cluster_borders = replicate (length starts + 1) False;
           cluster_borders = cluster_borders[0 := True];
           cluster_borders = cluster_borders[length cluster_borders - 1 := True];
           cluster_borders = assign_inner cluster_borders (cluster_borders_inner min_dist starts ends);
           cluster_ids_sorted =
             map (\<lambda>c. c - 1) (butlast (cumsum (map (\<lambda>b. if b then 1 else 0) cluster_borders)));
           cluster_ids = scatter (replicate (length starts) (- 1)) order cluster_ids_sorted;
           cluster_starts = mask_select starts (butlast cluster_borders);
           cluster_ends = mask_select ends (tl cluster_borders)
       in Inr (cluster_ids_sorted, cluster_starts, cluster_ends))"

text \<open>The array of lines 223--224, which the docstring describes ("the indices of
  interval clusters that each interval belongs to") and the function does not return.\<close>

definition merge_intervals_cluster_ids :: "int list \<Rightarrow> int list \<Rightarrow> int option \<Rightarrow> error + int list" where
  "merge_intervals_cluster_ids starts0 ends0 min_dist =
     ebind (lexsort [ends0, starts0]) (\<lambda>order.
     ebind (merge_intervals starts0 ends0 min_dist) (\<lambda>(cluster_ids_sorted, cluster_starts, cluster_ends).
       Inr (scatter (replicate (length starts0) (- 1)) order cluster_ids_sorted)))"

section \<open>Complement Engine: \<^verbatim>\<open>complement_intervals\<close>\<close>

definition complement_intervals :: "int list \<Rightarrow> int list \<Rightarrow> int \<times> int \<Rightarrow> error + (int list \<times> int list)" where
  "complement_intervals starts ends bounds =
     ebind (merge_intervals starts ends (Some 0)) (\<lambda>(ids, merged_starts, merged_ends).
       let lo = searchsorted_right merged_ends (fst bounds);
           hi = searchsorted_left merged_starts (snd bounds);
           merged_starts = py_slice merged_starts (int lo) (Some (int hi));
           merged_ends = py_slice merged_ends (int lo) (Some (int hi));
           complement_starts = fst bounds # merged_ends;
           complement_ends = merged_starts @ [snd bounds];
           lo = (if hd complement_starts \<ge> hd complement_ends then 1 else 0);
           hi = (if last complement_starts \<ge> last complement_ends then Some (- 1) else None);
           complement_starts = py_slice complement_starts lo hi;
           complement_ends = py_slice complement_ends lo hi
       in Inr (complement_starts, complement_ends))"

text \<open>The default of the \<open>bounds\<close> parameter: \<^verbatim>\<open>(0, np.iinfo(np.int64).max)\<close>.\<close>

definition int64_max :: int where
  "int64_max = 9223372036854775807"

definition complement_intervals_default :: "int list \<Rightarrow> int list \<Rightarrow> error + (int list \<times> int list)" where
  "complement_intervals_default starts ends = complement_intervals starts ends (0, int64_max)"

section \<open>Overlap Join: \<^verbatim>\<open>overlap_intervals\<close>\<close>

text \<open>The result array of shape \<open>N \<times> 2\<close> is a list of pairs.  \<^verbatim>\<open>np.vstack\<close>
  refuses rows of different lengths.\<close>

definition vstack_T :: "'a list \<Rightarrow> 'a list \<Rightarrow> error + ('a \<times> 'a) list" where
  "vstack_T row0 row1 =
     (if length row0 = length row1 then Inr (zip row0 row1)
      else Inl (ValueError Numpy))"

definition overlap_intervals :: "int list \<Rightarrow> int list \<Rightarrow> int list \<Rightarrow> int list \<Rightarrow> error + (int \<times> int) list" where
  "overlap_intervals starts1 ends1 starts2 ends2 =
     (let n1 = length starts1;
          n2 = length starts2;
          starts = starts1 @ starts2;
          ends = ends1 @ ends2;
          ids = map (\<lambda>i. - int i) [1..<n1 + 1] @ map int [1..<n2 + 1]
      in ebind (lexsort [ends, starts]) (\<lambda>order.
         let starts = take_idx starts order;
             ends = take_idx ends order;
             ids = take_idx ids order;
             match_starts = map int [0..<n1 + n2];
             match_ends = map (\<lambda>e. int (searchsorted_left starts e)) ends;
             match_mask = map2 (\<lambda>me ms. me > ms + 1) match_ends match_starts;
             match_starts = mask_select match_starts match_mask;
             match_ends = mask_select match_ends match_mask
         in ebind (fancy_index ids match_starts) (\<lambda>ids_first.
            ebind (np_repeat ids_first (map2 (\<lambda>me ms. me - ms - 1) match_ends match_starts)) (\<lambda>row0.
            ebind (arange_multi (Array (map (\<lambda>ms. ms + 1) match_starts)) (Some match_ends) None) (\<lambda>idx.
            ebind (fancy_index ids idx) (\<lambda>row1.
            ebind (vstack_T row0 row1) (\<lambda>overlap_ids.
            let overlap_ids = filter (\<lambda>(a, b). a * b \<le> 0) overlap_ids;
                overlap_ids = map (\<lambda>(a, b). (min a b, max a b)) overlap_ids;
                overlap_ids = map (\<lambda>(a, b). (a * (- 1) - 1, b)) overlap_ids;
                overlap_ids = map (\<lambda>(a, b). (a, b - 1)) overlap_ids
            in ebind (lexsort [map snd overlap_ids, map fst overlap_ids]) (\<lambda>order.
               Inr (take_idx overlap_ids order)))))))))"

section \<open>Nearest-Neighbor Finder: \<^verbatim>\<open>closest_intervals\<close>\<close>

text \<open>The sort orders of set 2 in the two directional passes when a tie-break sequence
  is given (lines 310 and 338).  The negation \<^verbatim>\<open>-tie_arr\<close> is numpy's: the least
  \<^verbatim>\<open>int64\<close> value negates to itself.\<close>

definition ends2_tie_order :: "int list \<Rightarrow> int list \<Rightarrow> error + nat list" where
  "ends2_tie_order ends2 tie = lexsort [map neg64 tie, ends2]"

definition starts2_tie_order :: "int list \<Rightarrow> int list \<Rightarrow> error + nat list" where
  "starts2_tie_order starts2 tie = lexsort [tie, starts2]"

text \<open>Lines 307--310 and 335--338.  \<open>tie_arr\<close> is \<open>Some\<close> tie-break sequence or
  \<open>None\<close>; \<open>asort\<close> is \<^verbatim>\<open>np.argsort\<close>.\<close>

definition ends2_sort_order :: "(int list \<Rightarrow> nat list) \<Rightarrow> int list \<Rightarrow> int list option \<Rightarrow> error + nat list" where
  "ends2_sort_order asort ends2 tie_arr =
     (case tie_arr of
        None \<Rightarrow> Inr (asort ends2)
      | Some tie \<Rightarrow> ends2_tie_order ends2 tie)"

definition starts2_sort_order :: "(int list \<Rightarrow> nat list) \<Rightarrow> int list \<Rightarrow> int list option \<Rightarrow> error + nat list" where
  "starts2_sort_order asort starts2 tie_arr =
     (case tie_arr of
        None \<Rightarrow> Inr (asort starts2)
      | Some tie \<Rightarrow> starts2_tie_order starts2 tie)"

text \<open>The upstream pass (lines 306--332) and the downstream pass (lines 334--361), each
  run only for a positive \<open>k\<close>.\<close>

definition upstream_ids_of ::
  "(int list \<Rightarrow> nat list) \<Rightarrow> int list \<Rightarrow> int list \<Rightarrow> int list \<Rightarrow> int list option \<Rightarrow> int \<Rightarrow>
   error + (int \<times> int) list" where
  "upstream_ids_of asort starts1 starts2 ends2 tie_arr k_upstream =
     (let n1 = length starts1; n2 = length starts2
      in ebind (ends2_sort_order asort ends2 tie_arr) (\<lambda>ends2_sort_order.
         ebind (fancy_index (map int [0..<n2]) (map int ends2_sort_order)) (\<lambda>ids2_endsorted.
         let ends2_sorted = take_idx ends2 ends2_sort_order;
             upstream_closest_endidx = map (\<lambda>s. int (searchsorted_right ends2_sorted s)) starts1;
             upstream_closest_startidx = map (\<lambda>e. max (sub64 e k_upstream) 0) upstream_closest_endidx
         in ebind (np_repeat (map int [0..<n1])
                     (map2 (-) upstream_closest_endidx upstream_closest_startidx)) (\<lambda>int1_ids.
            ebind (arange_multi (Array upstream_closest_startidx) (Some upstream_closest_endidx) None)
              (\<lambda>int2_sorted_ids.
            ebind (fancy_index ids2_endsorted int2_sorted_ids) (\<lambda>row1.
            vstack_T int1_ids row1))))))"

definition downstream_ids_of ::
  "(int list \<Rightarrow> nat list) \<Rightarrow> int list \<Rightarrow> int list \<Rightarrow> int list \<Rightarrow> int list option \<Rightarrow> int \<Rightarrow>
   error + (int \<times> int) list" where
  "downstream_ids_of asort starts1 ends1 starts2 tie_arr k_downstream =
     (let n1 = length starts1; n2 = length starts2
      in ebind (starts2_sort_order asort starts2 tie_arr) (\<lambda>starts2_sort_order.
         ebind (fancy_index (map int [0..<n2]) (map int starts2_sort_order)) (\<lambda>ids2_startsorted.
         let starts2_sorted = take_idx starts2 starts2_sort_order;
             downstream_closest_startidx = map (\<lambda>e. int (searchsorted_left starts2_sorted e)) ends1;
             downstream_closest_endidx =
               map (\<lambda>s. min (add64 s k_downstream) (int n2)) downstream_closest_startidx
         in ebind (np_repeat (map int [0..<n1])
                     (map2 (-) downstream_closest_endidx downstream_closest_startidx)) (\<lambda>int1_ids.
            ebind (arange_multi (Array downstream_closest_startidx) (Some downstream_closest_endidx) None)
              (\<lambda>int2_sorted_ids.
            ebind (fancy_index ids2_startsorted int2_sorted_ids) (\<lambda>row1.
            vstack_T int1_ids row1))))))"

definition closest_intervals_nooverlap ::
  "(int list \<Rightarrow> nat list) \<Rightarrow> int list \<Rightarrow> int list \<Rightarrow> int list \<Rightarrow> int list \<Rightarrow> int list option \<Rightarrow>
   int \<Rightarrow> int \<Rightarrow> error + ((int \<times> int) list \<times> (int \<times> int) list)" where
  "closest_intervals_nooverlap asort starts1 ends1 starts2 ends2 tie_arr k_upstream k_downstream =
     ebind (if k_upstream > 0 then upstream_ids_of asort starts1 starts2 ends2 tie_arr k_upstream
            else Inr []) (\<lambda>upstream_ids.
     ebind (if k_downstream > 0 then downstream_ids_of asort starts1 ends1 starts2 tie_arr k_downstream
            else Inr []) (\<lambda>downstream_ids.
     Inr (upstream_ids, downstream_ids)))"

text \<open>\<^verbatim>\<open>np.where(mask)[0]\<close>: the positions of \<^verbatim>\<open>True\<close>.\<close>

definition np_where :: "bool list \<Rightarrow> int list" where
  "np_where bs = map int (filter (\<lambda>i. bs ! i) [0..<length bs])"

text \<open>Lines 445--455: the runs of equal id1 in the sorted candidates, and the first
  \<open>min(k, run length)\<close> entries of each run.\<close>

definition select_k :: "int \<Rightarrow> (int \<times> int) list \<Rightarrow> error + (int \<times> int) list" where
  "select_k k closest_ids =
     (let interval1_run_border_mask =
            map2 (\<lambda>a b. a \<noteq> b) (map fst (butlast closest_ids)) (map fst (tl closest_ids));
          interval1_run_borders = np_where (True # interval1_run_border_mask @ [True]);
          interval1_run_starts = butlast interval1_run_borders;
          interval1_run_ends = tl interval1_run_borders
      in ebind (arange_multi (Array interval1_run_starts) None
                  (Some (map (\<lambda>d. min k d) (map2 (-) interval1_run_ends interval1_run_starts))))
           (\<lambda>idx. fancy_index closest_ids idx))"

text \<open>Lines 436--441: the final sort of the candidates, by id1, then distance, then
  (when a tie-break sequence is given) the sequence \<open>tie_arr\<close> itself, then id2.\<close>

definition final_order :: "int list option \<Rightarrow> (int \<times> int) list \<Rightarrow> int list \<Rightarrow> error + nat list" where
  "final_order tie_arr closest_ids closest_dists =
     (case tie_arr of
        None \<Rightarrow> lexsort [map snd closest_ids, closest_dists, map fst closest_ids]
      | Some tie \<Rightarrow> lexsort [map snd closest_ids, tie, closest_dists, map fst closest_ids])"

text \<open>Lines 409--457.  The distances are \<^verbatim>\<open>int64\<close> differences; concatenated with
  \<^verbatim>\<open>np.zeros\<close> they become \<^verbatim>\<open>float64\<close> values.\<close>

definition closest_intervals ::
  "(int list \<Rightarrow> nat list) \<Rightarrow> int list \<Rightarrow> int list \<Rightarrow> int list \<Rightarrow> int list \<Rightarrow> int \<Rightarrow> int list option \<Rightarrow>
   bool \<Rightarrow> bool \<Rightarrow> bool \<Rightarrow> error + (int \<times> int) list" where
  "closest_intervals asort starts1 ends1 starts2 ends2 k tie_arr ignore_overlaps ignore_upstream
       ignore_downstream =
     ebind (closest_intervals_nooverlap asort starts1 ends1 starts2 ends2 tie_arr
              (if ignore_upstream then 0 else k) (if ignore_downstream then 0 else k))
       (\<lambda>(upstream_ids, downstream_ids).
     ebind (fancy_index starts1 (map fst upstream_ids)) (\<lambda>starts1_up.
     ebind (fancy_index ends2 (map snd upstream_ids)) (\<lambda>ends2_up.
     ebind (fancy_index starts2 (map snd downstream_ids)) (\<lambda>starts2_down.
     ebind (fancy_index ends1 (map fst downstream_ids)) (\<lambda>ends1_down.
     let upstream_dists = map2 (\<lambda>s e. add64 (sub64 s e) 1) starts1_up ends2_up;
         downstream_dists = map2 (\<lambda>s e. add64 (sub64 s e) 1) starts2_down ends1_down
     in ebind (if ignore_overlaps then Inr []
               else overlap_intervals starts1 ends1 starts2 ends2) (\<lambda>overlap_ids.
        let closest_ids = upstream_ids @ downstream_ids @ overlap_ids;
            closest_dists = map to_float64 (upstream_dists @ downstream_dists)
                              @ replicate (length overlap_ids) 0
        in ebind (final_order tie_arr closest_ids closest_dists)
             (\<lambda>order. select_k k (take_idx closest_ids order))))))))"


section \<open>The sequential sweep behind the vectorised Merger\<close>

text \<open>The Merger is a sweep over the intervals sorted by (start, end) that keeps the
  running maximum of the ends.  The functions below state that sweep as a recursion; the
  vectorised source is proved equal to it and the properties of the Merger are then shown
  by induction.\<close>

definition is_border :: "int option \<Rightarrow> int \<Rightarrow> int \<Rightarrow> bool" where
  "is_border md s m = (case md of Some d \<Rightarrow> s > add64 m d | None \<Rightarrow> s \<ge> m)"

fun spans_from :: "int option \<Rightarrow> int \<Rightarrow> int \<Rightarrow> (int \<times> int) list \<Rightarrow> (int \<times> int) list" where
  "spans_from md s m [] = [(s, m)]"
| "spans_from md s m ((s', e') # xs) =
     (if is_border md s' m then (s, m) # spans_from md s' (max m e') xs
      else spans_from md s (max m e') xs)"

fun ids_from :: "int option \<Rightarrow> int \<Rightarrow> int \<Rightarrow> (int \<times> int) list \<Rightarrow> int list" where
  "ids_from md c m [] = []"
| "ids_from md c m ((s', e') # xs) =
     (if is_border md s' m then (c + 1) # ids_from md (c + 1) (max m e') xs
      else c # ids_from md c (max m e') xs)"

definition sweep_spans :: "int option \<Rightarrow> (int \<times> int) list \<Rightarrow> (int \<times> int) list" where
  "sweep_spans md ps = (case ps of [] \<Rightarrow> [] | (s, e) # xs \<Rightarrow> spans_from md s e xs)"

definition sweep_ids :: "int option \<Rightarrow> (int \<times> int) list \<Rightarrow> int list" where
  "sweep_ids md ps = (case ps of [] \<Rightarrow> [] | (s, e) # xs \<Rightarrow> 0 # ids_from md 0 e xs)"

definition sorted_order :: "int list \<Rightarrow> int list \<Rightarrow> nat list" where
  "sorted_order starts ends = sort_key (\<lambda>i. [starts ! i, ends ! i]) [0..<length starts]"

definition sorted_pairs :: "int list \<Rightarrow> int list \<Rightarrow> (int \<times> int) list" where
  "sorted_pairs starts ends = map (\<lambda>i. (starts ! i, ends ! i)) (sorted_order starts ends)"

definition borders :: "int option \<Rightarrow> int list \<Rightarrow> int list \<Rightarrow> bool list" where
  "borders md S E = map2 (\<lambda>s e. is_border md s e) (tl S) E"

definition inner_of :: "int option \<Rightarrow> int \<Rightarrow> (int \<times> int) list \<Rightarrow> bool list" where
  "inner_of md m xs =
     map2 (\<lambda>s e. is_border md s e) (map fst xs) (m # maximum_accumulate_from m (map snd xs))"

text \<open>A list of spans in which every span starts beyond the border of its predecessor
  and ends no earlier.\<close>

fun chain :: "int option \<Rightarrow> (int \<times> int) list \<Rightarrow> bool" where
  "chain md [] = True"
| "chain md [p] = True"
| "chain md (p # q # r) = (is_border md (fst q) (snd p) \<and> snd p \<le> snd q \<and> chain md (q # r))"

section \<open>The gaps behind the Complement Engine\<close>

text \<open>The candidate gaps between consecutive spans inside the bounds, the spans that
  survive the clipping by binary search, and the trimming of an empty first or last
  candidate (lines 247--250, on the list of pairs).\<close>

fun gaps_between :: "int \<Rightarrow> (int \<times> int) list \<Rightarrow> int \<Rightarrow> (int \<times> int) list" where
  "gaps_between b0 [] b1 = [(b0, b1)]"
| "gaps_between b0 ((s, e) # r) b1 = (b0, s) # gaps_between e r b1"

definition clip :: "int \<Rightarrow> int \<Rightarrow> (int \<times> int) list \<Rightarrow> (int \<times> int) list" where
  "clip b0 b1 sp = filter (\<lambda>p. b0 < snd p \<and> fst p < b1) sp"

definition trim_gaps :: "(int \<times> int) list \<Rightarrow> (int \<times> int) list" where
  "trim_gaps cands =
     py_slice cands (if fst (hd cands) \<ge> snd (hd cands) then 1 else 0)
       (if fst (last cands) \<ge> snd (last cands) then Some (- 1) else None)"

text \<open>A point is covered by a list of half-open intervals.\<close>

definition covered :: "(int \<times> int) list \<Rightarrow> int \<Rightarrow> bool" where
  "covered ps x = list_ex (\<lambda>p. fst p \<le> x \<and> x < snd p) ps"

text \<open>The reported gaps as a function of the merged spans, and the intervals that lie
  at or below coordinate 0 with both ends.\<close>

definition gaps_of_spans :: "int \<Rightarrow> int \<Rightarrow> (int \<times> int) list \<Rightarrow> (int \<times> int) list" where
  "gaps_of_spans b0 b1 sp = trim_gaps (gaps_between b0 (clip b0 b1 sp) b1)"

definition above_zero :: "int \<times> int \<Rightarrow> bool" where
  "above_zero p = (0 < fst p \<or> 0 < snd p)"

section \<open>The ranges behind the Range Expander\<close>

text \<open>The range \<open>[s, s + l)\<close> as a list, and the concatenation of the groups'
  ranges.\<close>

definition irange :: "int \<Rightarrow> int \<Rightarrow> int list" where
  "irange s l = map (\<lambda>k. s + int k) [0..<nat l]"

definition ranges_concat :: "int list \<Rightarrow> int list \<Rightarrow> int list" where
  "ranges_concat starts lengths = concat (map2 irange starts lengths)"

text \<open>Every element repeated by its count (\<^verbatim>\<open>np.repeat\<close> with counts as long as the
  array and none negative).\<close>

definition rep_cat :: "'a list \<Rightarrow> int list \<Rightarrow> 'a list" where
  "rep_cat xs ls = concat (map2 (\<lambda>x r. replicate (nat r) x) xs ls)"

section \<open>The raw pairs behind the Overlap Join\<close>

text \<open>For the jointly sorted arrays \<open>S\<close> (starts), \<open>E\<close> (ends) and \<open>I\<close> (signed
  ids): the pairs the join emits before the same-set filter, one block per sorted
  position \<open>p\<close>, and the decoding of a signed pair to (index in set 1, index in set 2).\<close>

definition raw_pairs :: "int list \<Rightarrow> int list \<Rightarrow> int list \<Rightarrow> (int \<times> int) list" where
  "raw_pairs S E I =
     concat (map (\<lambda>p. map (\<lambda>k. (I ! p, I ! (p + 1 + k)))
                         [0..<nat (int (searchsorted_left S (E ! p)) - int p - 1)])
                 (filter (\<lambda>p. int (searchsorted_left S (E ! p)) > int p + 1) [0..<length S]))"

definition decode_pair :: "int \<times> int \<Rightarrow> int \<times> int" where
  "decode_pair p = (min (fst p) (snd p) * (- 1) - 1, max (fst p) (snd p) - 1)"

definition tagged_ids :: "nat \<Rightarrow> nat \<Rightarrow> int list" where
  "tagged_ids n1 n2 = map (\<lambda>i. - int i) [1..<n1 + 1] @ map int [1..<n2 + 1]"

definition joined_pairs :: "int list \<Rightarrow> int list \<Rightarrow> int list \<Rightarrow> int list \<Rightarrow> (int \<times> int) list" where
  "joined_pairs starts1 ends1 starts2 ends2 =
     (let order = sorted_order (starts1 @ starts2) (ends1 @ ends2)
      in map decode_pair (filter (\<lambda>(a, b). a * b \<le> 0)
           (raw_pairs (take_idx (starts1 @ starts2) order) (take_idx (ends1 @ ends2) order)
              (take_idx (tagged_ids (length starts1) (length starts2)) order))))"

section \<open>Runs of equal id1\<close>


fun adj_mask :: "(int \<times> int) list \<Rightarrow> bool list" where
  "adj_mask (x # y # zs) = (fst x \<noteq> fst y) # adj_mask (y # zs)"
| "adj_mask zs = []"

definition where_nat :: "bool list \<Rightarrow> nat list" where
  "where_nat bs = filter (\<lambda>i. bs ! i) [0..<length bs]"



section \<open>Arithmetic within the \<^verbatim>\<open>int64\<close> range\<close>

lemma wrap64_id: "in64 x \<Longrightarrow> wrap64 x = x"
  unfolding in64_def wrap64_def by (simp add: mod_pos_pos_trivial)

lemma wrap_if_id: "(w \<Longrightarrow> in64 x) \<Longrightarrow> wrap_if w x = x"
  by (auto simp: wrap_if_def wrap64_id)

lemma add64_zero [simp]: "add64 m 0 = m"
  by (simp add: add64_def wrap64_id)



lemma to_float64_small: "\<bar>x\<bar> < 2 ^ 53 \<Longrightarrow> to_float64 x = x"
  by (simp add: to_float64_def round_half_even_def Let_def mult_sgn_abs float_spacing.simps)

section \<open>The vectorised Merger is the sweep\<close>

lemma lexsort_pair:
  "lexsort [ends, starts] =
     (if length ends = length starts then Inr (sorted_order starts ends)
      else Inl (ValueError Numpy))"
  by (auto simp: lexsort_def sorted_order_def)

lemma length_maximum_accumulate_from [simp]:
  "length (maximum_accumulate_from m xs) = length xs"
  by (induction xs arbitrary: m) auto

lemma length_maximum_accumulate [simp]: "length (maximum_accumulate xs) = length xs"
  by (cases xs) auto

lemma length_cumsum_from [simp]: "length (cumsum_from a xs) = length xs"
  by (induction xs arbitrary: a) auto

lemma zip_butlast_right: "zip xs (butlast ys) = zip xs ys" if "length xs < length ys"
proof -
  have "zip xs (take n ys) = zip xs ys" if "length xs \<le> n" for n
  proof -
    have "zip xs (take n ys) = zip (take n xs) (take n ys)" using that by simp
    also have "\<dots> = take n (zip xs ys)" by (simp add: take_zip)
    also have "\<dots> = zip xs ys" using that by simp
    finally show ?thesis .
  qed
  then show ?thesis using that by (simp add: butlast_conv_take)
qed

lemma mask_select_Cons [simp]:
  "mask_select (x # xs) (b # bs) = (if b then x # mask_select xs bs else mask_select xs bs)"
  by (simp add: mask_select_def)

lemma mask_select_Nil [simp]: "mask_select xs [] = []" "mask_select [] bs = []"
  by (simp_all add: mask_select_def)

lemma mask_select_append:
  "length xs = length bs \<Longrightarrow> mask_select (xs @ ys) (bs @ cs) = mask_select xs bs @ mask_select ys cs"
  by (simp add: mask_select_def)

lemma cumsum_from_append:
  "cumsum_from a (xs @ ys) = cumsum_from a xs @ cumsum_from (a + sum_list xs) ys"
  by (induction xs arbitrary: a) (auto simp: algebra_simps)

lemma butlast_cumsum_from_snoc: "butlast (cumsum_from a (xs @ [y])) = cumsum_from a xs"
  by (simp add: cumsum_from_append butlast_append)

lemma cluster_borders_inner_eq:
  "length S = length E \<Longrightarrow> cluster_borders_inner md S E = borders md S E"
proof -
  assume len: "length S = length E"
  have z: "zip (tl S) (butlast E) = zip (tl S) E"
  proof (cases "S = []")
    case True
    then show ?thesis by simp
  next
    case False
    then have "length (tl S) < length E" using len by (cases S) auto
    then show ?thesis by (rule zip_butlast_right)
  qed
  show ?thesis
    by (cases md) (simp_all add: cluster_borders_inner_def borders_def is_border_def z)
qed

lemma length_borders: "length S = length E \<Longrightarrow> length (borders md S E) = length S - 1"
  by (simp add: borders_def)

lemma full_borders:
  assumes "length inner = n - 1"
  shows "assign_inner (((replicate (n + 1) False)[0 := True])[length ((replicate (n + 1) False)[0 := True]) - 1 := True]) inner
         = (if n = 0 then [True] else True # inner @ [True])"
proof (cases n)
  case 0
  then show ?thesis using assms by (simp add: assign_inner_def)
next
  case (Suc k)
  have "(replicate (Suc k + 1) False)[0 := True] = True # replicate (Suc k) False" by simp
  moreover have "(True # replicate (Suc k) False)[Suc k := True] = True # replicate k False @ [True]"
    by (induction k) (auto simp: replicate_append_same)
  ultimately show ?thesis using Suc assms
    by (simp add: assign_inner_def)
qed


lemma take_idx_sorted_pairs:
  "take_idx starts (sorted_order starts ends) = map fst (sorted_pairs starts ends)"
  "take_idx ends (sorted_order starts ends) = map snd (sorted_pairs starts ends)"
  by (simp_all add: take_idx_def sorted_pairs_def comp_def)

lemma cluster_borders_full:
  assumes "length S = length E"
  shows "assign_inner (((replicate (length S + 1) False)[0 := True])
            [length ((replicate (length S + 1) False)[0 := True]) - 1 := True])
            (cluster_borders_inner md S E)
         = (if S = [] then [True] else True # borders md S E @ [True])"
proof -
  have e: "cluster_borders_inner md S E = borders md S E"
    using assms by (rule cluster_borders_inner_eq)
  have "length (cluster_borders_inner md S E) = length S - 1"
    using assms by (simp add: e length_borders)
  from full_borders [OF this] show ?thesis
    by (simp add: e)
qed

lemma merge_intervals_unfold:
  "merge_intervals starts ends md =
     (if length ends = length starts
      then (let S = map fst (sorted_pairs starts ends);
                E = maximum_accumulate (map snd (sorted_pairs starts ends));
                B = (if S = [] then [True] else True # borders md S E @ [True])
            in Inr (map (\<lambda>c. c - 1) (butlast (cumsum (map (\<lambda>b. if b then 1 else 0) B))),
                    mask_select S (butlast B), mask_select E (tl B)))
      else Inl (ValueError Numpy))"
proof (cases "length ends = length starts")
  case False
  then show ?thesis by (simp add: merge_intervals_def lexsort_pair ebind_def)
next
  case True
  let ?S = "map fst (sorted_pairs starts ends)"
  let ?E = "maximum_accumulate (map snd (sorted_pairs starts ends))"
  have len: "length ?S = length ?E" by simp
  have lx: "lexsort [ends, starts] = Inr (sorted_order starts ends)"
    using True by (simp add: lexsort_pair)
  have "merge_intervals starts ends md =
      (let B = assign_inner (((replicate (length ?S + 1) False)[0 := True])
            [length ((replicate (length ?S + 1) False)[0 := True]) - 1 := True])
            (cluster_borders_inner md ?S ?E)
       in Inr (map (\<lambda>c. c - 1) (butlast (cumsum (map (\<lambda>b. if b then 1 else 0) B))),
                    mask_select ?S (butlast B), mask_select ?E (tl B)))"
    by (simp only: merge_intervals_def lx ebind_def Let_def take_idx_sorted_pairs sum.case)
  then show ?thesis
    using True by (simp only: cluster_borders_full [OF len] Let_def if_True simp_thms)
qed

lemma inner_of_simps [simp]:
  "inner_of md m [] = []"
  "inner_of md m ((s', e') # xs) = is_border md s' m # inner_of md (max m e') xs"
  by (simp_all add: inner_of_def)

lemma length_inner_of [simp]: "length (inner_of md m xs) = length xs"
  by (simp add: inner_of_def)

lemma spans_from_starts:
  "s # mask_select (map fst xs) (inner_of md m xs) = map fst (spans_from md s m xs)"
  by (induction xs arbitrary: s m) auto

lemma spans_from_ends:
  "mask_select (m # maximum_accumulate_from m (map snd xs)) (inner_of md m xs @ [True])
     = map snd (spans_from md s m xs)"
  by (induction xs arbitrary: s m) auto

lemma ids_from_cumsum:
  "map (\<lambda>c. c - 1) (cumsum_from a (map (\<lambda>b. if b then 1 else 0) (inner_of md m xs)))
     = ids_from md (a - 1) m xs"
  by (induction xs arbitrary: a m) auto

theorem merge_intervals_sweep:
  "merge_intervals starts ends md =
     (if length ends = length starts
      then Inr (sweep_ids md (sorted_pairs starts ends),
                map fst (sweep_spans md (sorted_pairs starts ends)),
                map snd (sweep_spans md (sorted_pairs starts ends)))
      else Inl (ValueError Numpy))"
proof (cases "sorted_pairs starts ends")
  case Nil
  then show ?thesis
    by (simp add: merge_intervals_unfold sweep_ids_def sweep_spans_def cumsum_def)
next
  case (Cons p xs)
  obtain s e where p: "p = (s, e)" by (cases p)
  have b: "borders md (s # map fst xs) (e # maximum_accumulate_from e (map snd xs)) = inner_of md e xs"
    by (simp add: borders_def inner_of_def)
  have ids: "map (\<lambda>c. c - 1) (butlast (cumsum (map (\<lambda>b. if b then 1 else 0) (True # inner_of md e xs @ [True]))))
      = 0 # ids_from md 0 e xs"
  proof -
    let ?ob = "map (\<lambda>b. if b then 1 else (0::int))"
    have "butlast (cumsum (?ob (True # inner_of md e xs @ [True])))
        = butlast (cumsum_from 0 ((1 # ?ob (inner_of md e xs)) @ [1]))"
      by (simp add: cumsum_def)
    also have "\<dots> = cumsum_from 0 (1 # ?ob (inner_of md e xs))"
      by (rule butlast_cumsum_from_snoc)
    also have "\<dots> = 1 # cumsum_from 1 (?ob (inner_of md e xs))" by simp
    finally show ?thesis
      using ids_from_cumsum [of 1 md e xs] by simp
  qed
  show ?thesis
    using spans_from_starts [of s xs md e] spans_from_ends [of e xs md s] ids
    by (simp add: merge_intervals_unfold Cons p b sweep_ids_def sweep_spans_def)
qed

section \<open>Properties of the Merger\<close>

text \<open>Claim C1.  The Merger is documented to return, per input position, the id of the
  cluster the interval at that position belongs to, and lines 223--224 compute that array
  (\<^verbatim>\<open>cluster_ids[order] = cluster_ids_sorted\<close>).  Line 229 returns
  \<^verbatim>\<open>cluster_ids_sorted\<close> instead.  On the input \<open>[(10,11), (0,1)]\<close> the
  function returns the ids \<open>[0, 1]\<close> with the spans \<open>[(0,1), (10,11)]\<close>: position
  0 holds \<open>(10,11)\<close>, which lies in span 1, and is given id 0.  The array aligned with
  the input, \<open>[1, 0]\<close>, is the one that is computed and dropped.\<close>

theorem merge_intervals_returns_ids_in_sorted_order:
  "merge_intervals [10, 0] [11, 1] (Some 0) = Inr ([0, 1], [0, 10], [1, 11])
   \<and> merge_intervals_cluster_ids [10, 0] [11, 1] (Some 0) = Inr [1, 0]"
  by code_simp

lemma length_ids_from [simp]: "length (ids_from md c m xs) = length xs"
  by (induction xs arbitrary: c m) auto

lemma ids_from_step:
  "j < length xs \<Longrightarrow>
   (c # ids_from md c m xs) ! Suc j =
   (c # ids_from md c m xs) ! j +
     (if is_border md (map fst xs ! j) ((m # maximum_accumulate_from m (map snd xs)) ! j)
      then 1 else 0)"
proof (induction xs arbitrary: c m j)
  case Nil
  then show ?case by simp
next
  case (Cons p xs)
  obtain s e where p: "p = (s, e)" by (cases p)
  show ?case
  proof (cases j)
    case 0
    then show ?thesis by (simp add: p)
  next
    case (Suc k)
    then have k: "k < length xs" using Cons.prems by simp
    show ?thesis
      using Cons.IH [OF k, of "c + 1" "max m e"] Cons.IH [OF k, of c "max m e"]
      by (simp add: p Suc)
  qed
qed

lemma ids_from_ge: "x \<in> set (ids_from md c m xs) \<Longrightarrow> c \<le> x"
proof (induction xs arbitrary: c m)
  case Nil
  then show ?case by simp
next
  case (Cons p xs)
  obtain s e where p: "p = (s, e)" by (cases p)
  from Cons.prems Cons.IH [of "c + 1" "max m e"] Cons.IH [of c "max m e"]
  show ?case by (auto simp: p split: if_splits)
qed

lemma sorted_ids_from: "sorted (c # ids_from md c m xs)"
proof (induction xs arbitrary: c m)
  case Nil
  then show ?case by simp
next
  case (Cons p xs)
  obtain s e where p: "p = (s, e)" by (cases p)
  from Cons.IH [of "c + 1" "max m e"] Cons.IH [of c "max m e"]
  show ?case by (auto simp: p dest: ids_from_ge)
qed

lemma length_spans_from:
  "int (length (spans_from md s m xs)) = last (c # ids_from md c m xs) - c + 1"
proof (induction xs arbitrary: s c m)
  case Nil
  then show ?case by simp
next
  case (Cons p xs)
  obtain s' e where p: "p = (s', e)" by (cases p)
  from Cons.IH [of s' "max m e" "c + 1"] Cons.IH [of s "max m e" c]
  show ?case by (auto simp: p)
qed

lemma last_sorted_Max:
  fixes xs :: "int list"
  assumes "sorted xs" "xs \<noteq> []"
  shows "Max (set xs) = last xs"
proof (rule Max_eqI)
  show "finite (set xs)" by simp
  show "last xs \<in> set xs" using assms by simp
  fix y assume "y \<in> set xs"
  then obtain i where i: "i < length xs" "xs ! i = y" by (auto simp: in_set_conv_nth)
  then have "xs ! i \<le> xs ! (length xs - 1)"
    using assms by (intro sorted_nth_mono) auto
  then show "y \<le> last xs" using i assms by (simp add: last_conv_nth)
qed

lemma length_sorted_pairs [simp]: "length (sorted_pairs starts ends) = length starts"
  by (simp add: sorted_pairs_def sorted_order_def)

text \<open>Claim C9.  Whenever the Merger returns, its outputs are mutually consistent:
  there is one cluster id per input interval; the returned ids (which are in sorted order)
  start at 0 and each step keeps the id or adds 1; the arrays of span starts and span ends
  have the same length; and for a non-empty input the number of spans is the largest id
  plus 1 (for an empty input there is no id and no span).\<close>

theorem merge_outputs_consistent:
  assumes "merge_intervals starts ends min_dist = Inr (ids, cluster_starts, cluster_ends)"
  shows "length ids = length starts
       \<and> (ids \<noteq> [] \<longrightarrow> hd ids = 0)
       \<and> (\<forall>i. Suc i < length ids \<longrightarrow> ids ! Suc i = ids ! i \<or> ids ! Suc i = ids ! i + 1)
       \<and> length cluster_ends = length cluster_starts
       \<and> (ids = [] \<longrightarrow> cluster_starts = [])
       \<and> (ids \<noteq> [] \<longrightarrow> int (length cluster_starts) = Max (set ids) + 1)"
proof (cases "length ends = length starts")
  case False
  then show ?thesis using assms by (simp add: merge_intervals_sweep)
next
  case True
  let ?ps = "sorted_pairs starts ends"
  have ids: "ids = sweep_ids min_dist ?ps"
    and cs: "cluster_starts = map fst (sweep_spans min_dist ?ps)"
    and ce: "cluster_ends = map snd (sweep_spans min_dist ?ps)"
    using assms True by (simp_all add: merge_intervals_sweep)
  show ?thesis
  proof (cases ?ps)
    case Nil
    then have "starts = []" using length_sorted_pairs [of starts ends] by simp
    then show ?thesis using Nil by (simp add: ids cs ce sweep_ids_def sweep_spans_def)
  next
    case (Cons p xs)
    obtain s e where p: "p = (s, e)" by (cases p)
    have i: "ids = 0 # ids_from min_dist 0 e xs" by (simp add: ids Cons p sweep_ids_def)
    have sp: "sweep_spans min_dist ?ps = spans_from min_dist s e xs"
      by (simp add: Cons p sweep_spans_def)
    have len: "length ids = length starts"
      using length_sorted_pairs [of starts ends] by (simp add: i Cons)
    have step: "ids ! Suc j = ids ! j \<or> ids ! Suc j = ids ! j + 1" if "Suc j < length ids" for j
      using ids_from_step [of j xs 0 min_dist e] that by (simp add: i)
    have "Max (set ids) = last ids"
      using sorted_ids_from [of 0 min_dist e xs] by (intro last_sorted_Max) (simp_all add: i)
    then have mx: "int (length cluster_starts) = Max (set ids) + 1"
      using length_spans_from [of min_dist s e xs 0] by (simp add: cs sp i)
    show ?thesis using len step mx by (simp add: i cs ce)
  qed
qed

text \<open>The statement above at the example of the specification,
  \<open>[(1,5), (3,8), (10,12)]\<close> with \<open>min_dist = 0\<close>.\<close>

theorem merge_outputs_consistent_witness:
  "merge_intervals [1, 3, 10] [5, 8, 12] (Some 0) = Inr ([0, 0, 1], [1, 10], [8, 12])
   \<and> length [0, 0, 1 :: int] = length [1, 3, 10 :: int]
   \<and> hd [0, 0, 1 :: int] = 0
   \<and> int (length [1, 10 :: int]) = Max (set [0, 0, 1 :: int]) + 1"
proof -
  have e: "merge_intervals [1, 3, 10] [5, 8, 12] (Some 0) = Inr ([0, 0, 1], [1, 10], [8, 12])"
    by code_simp
  from merge_outputs_consistent [OF e] e show ?thesis by simp
qed

lemma sorted_sorted_pairs: "sorted (map (\<lambda>p. [fst p, snd p]) (sorted_pairs starts ends))"
proof -
  have "map (\<lambda>p. [fst p, snd p]) (sorted_pairs starts ends)
      = map (\<lambda>i. [starts ! i, ends ! i]) (sorted_order starts ends)"
    by (simp add: sorted_pairs_def comp_def)
  then show ?thesis by (simp add: sorted_order_def)
qed

lemma mset_sorted_pairs:
  assumes "length ends = length starts"
  shows "mset (sorted_pairs starts ends) = mset (zip starts ends)"
proof -
  have "mset (sorted_pairs starts ends) = image_mset (\<lambda>i. (starts ! i, ends ! i)) (mset [0..<length starts])"
    by (simp add: sorted_pairs_def sorted_order_def)
  also have "\<dots> = mset (map (\<lambda>i. (starts ! i, ends ! i)) [0..<length starts])" by simp
  also have "map (\<lambda>i. (starts ! i, ends ! i)) [0..<length starts] = zip starts ends"
    using assms by (intro nth_equalityI) auto
  finally show ?thesis .
qed

lemma set_sorted_pairs:
  "length ends = length starts \<Longrightarrow> set (sorted_pairs starts ends) = set (zip starts ends)"
  using mset_sorted_pairs [of ends starts] by (metis set_mset_mset)

lemma sorted_pairs_id:
  assumes "sorted (map (\<lambda>p. [fst p, snd p]) ps)"
  shows "sorted_pairs (map fst ps) (map snd ps) = ps"
proof -
  have m: "map (\<lambda>i. [map fst ps ! i, map snd ps ! i]) [0..<length ps] = map (\<lambda>p. [fst p, snd p]) ps"
    by (intro nth_equalityI) auto
  have "sorted_order (map fst ps) (map snd ps) = [0..<length ps]"
    unfolding sorted_order_def using assms m by (simp add: sort_key_id_if_sorted)
  then have "sorted_pairs (map fst ps) (map snd ps) = map (\<lambda>i. (map fst ps ! i, map snd ps ! i)) [0..<length ps]"
    by (simp add: sorted_pairs_def)
  also have "\<dots> = ps" by (intro nth_equalityI) auto
  finally show ?thesis .
qed

lemma spans_from_hd: "\<exists>m' r. spans_from md s m xs = (s, m') # r \<and> m \<le> m'"
proof (induction xs arbitrary: s m)
  case Nil
  then show ?case by simp
next
  case (Cons p xs)
  obtain s' e where p: "p = (s', e)" by (cases p)
  from Cons.IH [of s "max m e"] show ?case by (auto simp: p)
qed

lemma chain_spans_from: "chain md (spans_from md s m xs)"
proof (induction xs arbitrary: s m)
  case Nil
  then show ?case by simp
next
  case (Cons p xs)
  obtain s' e where p: "p = (s', e)" by (cases p)
  obtain m' r where h: "spans_from md s' (max m e) xs = (s', m') # r" "max m e \<le> m'"
    using spans_from_hd by blast
  from Cons.IH [of s' "max m e"] Cons.IH [of s "max m e"] h
  show ?case by (auto simp: p)
qed

lemma spans_from_chain: "chain md ((s, m) # r) \<Longrightarrow> spans_from md s m r = (s, m) # r"
proof (induction r arbitrary: s m)
  case Nil
  then show ?case by simp
next
  case (Cons q r)
  obtain s' e where q: "q = (s', e)" by (cases q)
  from Cons.prems have "is_border md s' m" "m \<le> e" "chain md ((s', e) # r)" by (simp_all add: q)
  then show ?case using Cons.IH [of s' e] by (simp add: q max_def)
qed

lemma ids_from_chain:
  "chain md ((s, m) # r) \<Longrightarrow> ids_from md c m r = map (\<lambda>k. c + 1 + int k) [0..<length r]"
proof (induction r arbitrary: s m c)
  case Nil
  then show ?case by simp
next
  case (Cons q r)
  obtain s' e where q: "q = (s', e)" by (cases q)
  from Cons.prems have h: "is_border md s' m" "m \<le> e" "chain md ((s', e) # r)" by (simp_all add: q)
  have "map (\<lambda>k. c + 1 + int k) [0..<length (q # r)]
      = (c + 1) # map (\<lambda>k. c + 1 + 1 + int k) [0..<length r]"
    by (simp add: upt_conv_Cons map_Suc_upt [symmetric] del: upt_Suc) 
  then show ?case using Cons.IH [OF h(3), of "c + 1"] h by (simp add: q max_def del: upt_Suc)
qed

lemma spans_from_fst_ge:
  "\<forall>p \<in> set xs. s \<le> fst p \<Longrightarrow> sorted (map fst xs) \<Longrightarrow>
   sorted (map fst (spans_from md s m xs))"
proof (induction xs arbitrary: s m)
  case Nil
  then show ?case by simp
next
  case (Cons p xs)
  obtain s' e where p: "p = (s', e)" by (cases p)
  have a: "\<forall>q \<in> set xs. s' \<le> fst q" using Cons.prems(2) by (auto simp: p)
  have b: "sorted (map fst xs)" using Cons.prems(2) by simp
  have c: "\<forall>q \<in> set xs. s \<le> fst q" using Cons.prems(1) by simp
  have d: "s \<le> s'" using Cons.prems(1) by (simp add: p)
  obtain m' r where h: "spans_from md s' (max m e) xs = (s', m') # r"
    using spans_from_hd by blast
  from Cons.IH [OF a b, of "max m e"] Cons.IH [OF c b, of "max m e"] d h
  show ?case by (auto simp: p)
qed

lemma chain_sorted_snd: "chain md ps \<Longrightarrow> sorted (map snd ps)"
proof (induction md ps rule: chain.induct)
  case (3 md p q r)
  then have "sorted (map snd (q # r))" "snd p \<le> snd q" by simp_all
  then show ?case by auto
qed simp_all

lemma sorted_pair_keys:
  assumes "sorted (map fst ps)" "sorted (map snd ps)"
  shows "sorted (map (\<lambda>p. [fst p, snd p]) ps)"
  using assms
proof (induction ps)
  case Nil
  then show ?case by simp
next
  case (Cons p ps)
  then show ?case by (auto simp: order_le_less)
qed

lemma sorted_fst_of_keys:
  "sorted (map (\<lambda>p. [fst p, snd p]) ps) \<Longrightarrow> sorted (map fst ps)"
proof (induction ps)
  case Nil
  then show ?case by simp
next
  case (Cons p ps)
  then show ?case by (auto simp: order_le_less)
qed

lemma sweep_spans_sorted_keys:
  "sorted (map (\<lambda>p. [fst p, snd p]) (sweep_spans md (sorted_pairs starts ends)))"
proof (cases "sorted_pairs starts ends")
  case Nil
  then show ?thesis by (simp add: sweep_spans_def)
next
  case (Cons p xs)
  obtain s e where p: "p = (s, e)" by (cases p)
  have "sorted (map fst ((s, e) # xs))"
    using sorted_sorted_pairs [of starts ends] sorted_fst_of_keys unfolding Cons p by blast
  then have "sorted (map fst (spans_from md s e xs))"
    by (intro spans_from_fst_ge) auto
  moreover have "sorted (map snd (spans_from md s e xs))"
    by (rule chain_sorted_snd [OF chain_spans_from])
  ultimately show ?thesis
    by (simp add: Cons p sweep_spans_def sorted_pair_keys)
qed

text \<open>Claim C7.  Whenever the Merger returns spans, running it on those spans with the same
  \<open>min_dist\<close> returns them unchanged, with one cluster per span (the ids are
  \<open>0, 1, \<dots>\<close>).\<close>

theorem merge_spans_fixed_point:
  assumes "merge_intervals starts ends min_dist = Inr (ids, cluster_starts, cluster_ends)"
  shows "merge_intervals cluster_starts cluster_ends min_dist
           = Inr (map int [0..<length cluster_starts], cluster_starts, cluster_ends)"
proof (cases "length ends = length starts")
  case False
  then show ?thesis using assms by (simp add: merge_intervals_sweep)
next
  case True
  let ?sp = "sweep_spans min_dist (sorted_pairs starts ends)"
  have cs: "cluster_starts = map fst ?sp" and ce: "cluster_ends = map snd ?sp"
    using assms True by (simp_all add: merge_intervals_sweep)
  have sp: "sorted_pairs cluster_starts cluster_ends = ?sp"
    unfolding cs ce by (rule sorted_pairs_id [OF sweep_spans_sorted_keys])
  have ch: "chain min_dist ?sp"
    by (cases "sorted_pairs starts ends") (auto simp: sweep_spans_def chain_spans_from)
  have fixp: "sweep_spans min_dist ?sp = ?sp"
  proof (cases ?sp)
    case Nil
    then show ?thesis by (simp add: sweep_spans_def)
  next
    case (Cons q r)
    obtain s m where q: "q = (s, m)" by (cases q)
    have "chain min_dist ((s, m) # r)" using ch unfolding Cons q .
    then have "sweep_spans min_dist (q # r) = q # r"
      using spans_from_chain [of min_dist s m r] by (simp add: q sweep_spans_def)
    then show ?thesis by (simp add: Cons)
  qed
  have idl: "sweep_ids min_dist ?sp = map int [0..<length ?sp]"
  proof (cases ?sp)
    case Nil
    then show ?thesis by (simp add: sweep_ids_def)
  next
    case (Cons q r)
    obtain s m where q: "q = (s, m)" by (cases q)
    have "chain min_dist ((s, m) # r)" using ch unfolding Cons q .
    then have "ids_from min_dist 0 m r = map (\<lambda>k. 0 + 1 + int k) [0..<length r]"
      by (rule ids_from_chain)
    moreover have "map int [0..<length (q # r)] = 0 # map (\<lambda>k. 1 + int k) [0..<length r]"
      by (simp add: upt_conv_Cons map_Suc_upt [symmetric] del: upt_Suc)
    ultimately have "sweep_ids min_dist (q # r) = map int [0..<length (q # r)]"
      by (simp add: q sweep_ids_def del: upt_Suc)
    then show ?thesis by (simp add: Cons)
  qed
  have "length cluster_ends = length cluster_starts" by (simp add: cs ce)
  then show ?thesis
    by (simp add: merge_intervals_sweep sp fixp idl) (simp add: cs ce)
qed

text \<open>The fixed point at the example of the specification.\<close>

theorem merge_spans_fixed_point_witness:
  "merge_intervals [1, 3, 10] [5, 8, 12] (Some 0) = Inr ([0, 0, 1], [1, 10], [8, 12])
   \<and> merge_intervals [1, 10] [8, 12] (Some 0) = Inr ([0, 1], [1, 10], [8, 12])"
proof -
  have e: "merge_intervals [1, 3, 10] [5, 8, 12] (Some 0) = Inr ([0, 0, 1], [1, 10], [8, 12])"
    by code_simp
  from merge_spans_fixed_point [OF e] e show ?thesis by (simp add: upt_conv_Cons)
qed

lemma filter_eq_replicate: "filter (\<lambda>x. k = x) xs = replicate (count (mset xs) k) k"
  by (induction xs) auto

lemma sorted_pairs_sort_key:
  assumes "length ends = length starts"
  shows "sorted_pairs starts ends = sort_key (\<lambda>p. [fst p, snd p]) (zip starts ends)"
proof (rule properties_for_sort_key [symmetric])
  show "mset (sorted_pairs starts ends) = mset (zip starts ends)"
    by (rule mset_sorted_pairs [OF assms])
  show "sorted (map (\<lambda>p. [fst p, snd p]) (sorted_pairs starts ends))"
    by (rule sorted_sorted_pairs)
  fix k :: "int \<times> int"
  have inj: "([fst k, snd k] = [fst x, snd x]) = (k = x)" for x by (auto simp: prod_eq_iff)
  show "filter (\<lambda>x. [fst k, snd k] = [fst x, snd x]) (sorted_pairs starts ends)
      = filter (\<lambda>x. [fst k, snd k] = [fst x, snd x]) (zip starts ends)"
    unfolding inj filter_eq_replicate by (simp add: mset_sorted_pairs [OF assms])
qed







section \<open>Properties of the Complement Engine\<close>

lemma clamp_index_nat [simp]: "clamp_index n (int k) = min n k"
  by (simp add: clamp_index_def)

lemma py_slice_nat: "py_slice xs (int l) (Some (int h)) = take (min (length xs) h - min (length xs) l) (drop (min (length xs) l) xs)"
  by (simp add: py_slice_def Let_def)

lemma py_slice_map: "py_slice (map f xs) l h = map f (py_slice xs l h)"
  by (simp add: py_slice_def Let_def take_map drop_map)

lemma take_count_prefix:
  "sorted_wrt (\<lambda>x y. Q y \<longrightarrow> Q x) xs \<Longrightarrow> take (length (filter Q xs)) xs = filter Q xs"
proof (induction xs)
  case Nil
  then show ?case by simp
next
  case (Cons x xs)
  show ?case
  proof (cases "Q x")
    case True
    then show ?thesis using Cons by simp
  next
    case False
    then have "\<forall>y \<in> set xs. \<not> Q y" using Cons.prems by auto
    then have "filter Q xs = []" by (simp add: filter_empty_conv)
    then show ?thesis using False by simp
  qed
qed

lemma slice_by_counts:
  assumes "sorted_wrt (\<lambda>x y. (P y \<longrightarrow> P x) \<and> (Q y \<longrightarrow> Q x)) xs"
  shows "take (length (filter Q xs) - length (filter P xs)) (drop (length (filter P xs)) xs)
         = filter (\<lambda>x. \<not> P x \<and> Q x) xs"
  using assms
proof (induction xs)
  case Nil
  then show ?case by simp
next
  case (Cons x xs)
  have tl: "sorted_wrt (\<lambda>x y. (P y \<longrightarrow> P x) \<and> (Q y \<longrightarrow> Q x)) xs" using Cons.prems by simp
  show ?case
  proof (cases "P x")
    case True
    show ?thesis
    proof (cases "Q x")
      case True
      with \<open>P x\<close> Cons.IH [OF tl] show ?thesis by simp
    next
      case False
      then have "\<forall>y \<in> set xs. \<not> Q y" using Cons.prems by auto
      then have "filter Q xs = []" "filter (\<lambda>x. \<not> P x \<and> Q x) xs = []"
        by (simp_all add: filter_empty_conv)
      then show ?thesis using False \<open>P x\<close> by simp
    qed
  next
    case False
    then have np: "\<forall>y \<in> set xs. \<not> P y" using Cons.prems by auto
    then have fp: "filter P (x # xs) = []" using False by (simp add: filter_empty_conv)
    have "sorted_wrt (\<lambda>x y. Q y \<longrightarrow> Q x) (x # xs)"
      using Cons.prems by (rule sorted_wrt_mono_rel [rotated]) auto
    then have "take (length (filter Q (x # xs))) (x # xs) = filter Q (x # xs)"
      by (rule take_count_prefix)
    moreover have "filter (\<lambda>x. \<not> P x \<and> Q x) (x # xs) = filter Q (x # xs)"
      using np False by (intro filter_cong) auto
    ultimately show ?thesis unfolding fp by simp
  qed
qed

lemma length_filter_le_self: "min (length xs) (length (filter P xs)) = length (filter P xs)"
  using length_filter_le [of P xs] by simp

lemma clip_by_search:
  assumes "sorted (map fst sp)" "sorted (map snd sp)"
  shows "py_slice sp (int (searchsorted_right (map snd sp) b0)) (Some (int (searchsorted_left (map fst sp) b1)))
         = clip b0 b1 sp"
proof -
  let ?P = "\<lambda>p. snd p \<le> b0" and ?Q = "\<lambda>p. fst p < b1"
  have lo: "searchsorted_right (map snd sp) b0 = length (filter ?P sp)"
    by (simp add: searchsorted_right_def filter_map comp_def)
  have hi: "searchsorted_left (map fst sp) b1 = length (filter ?Q sp)"
    by (simp add: searchsorted_left_def filter_map comp_def)
  have "sorted_wrt (\<lambda>p q. fst p \<le> fst q \<and> snd p \<le> snd q) sp"
    using assms by (induction sp) auto
  then have "sorted_wrt (\<lambda>x y. (?P y \<longrightarrow> ?P x) \<and> (?Q y \<longrightarrow> ?Q x)) sp"
    by (rule sorted_wrt_mono_rel [rotated]) auto
  from slice_by_counts [OF this] show ?thesis
    unfolding lo hi py_slice_nat length_filter_le_self clip_def
    by (simp add: not_le cong: filter_cong)
qed


lemma sweep_spans_sorted:
  "sorted (map fst (sweep_spans md (sorted_pairs starts ends)))"
  "sorted (map snd (sweep_spans md (sorted_pairs starts ends)))"
proof -
  show "sorted (map fst (sweep_spans md (sorted_pairs starts ends)))"
    using sorted_fst_of_keys [OF sweep_spans_sorted_keys] .
  show "sorted (map snd (sweep_spans md (sorted_pairs starts ends)))"
    by (cases "sorted_pairs starts ends")
       (auto simp: sweep_spans_def intro: chain_sorted_snd [OF chain_spans_from])
qed

lemma gaps_between_fst: "map fst (gaps_between b0 cl b1) = b0 # map snd cl"
  by (induction b0 cl b1 rule: gaps_between.induct) auto

lemma gaps_between_snd: "map snd (gaps_between b0 cl b1) = map fst cl @ [b1]"
  by (induction b0 cl b1 rule: gaps_between.induct) auto

lemma gaps_between_nonempty [simp]: "gaps_between b0 cl b1 \<noteq> []"
  by (cases cl) auto

lemma complement_intervals_gaps:
  assumes "length ends = length starts"
  shows "complement_intervals starts ends (b0, b1) =
           Inr (map fst (trim_gaps (gaps_between b0
                  (clip b0 b1 (sweep_spans (Some 0) (sorted_pairs starts ends))) b1)),
                map snd (trim_gaps (gaps_between b0
                  (clip b0 b1 (sweep_spans (Some 0) (sorted_pairs starts ends))) b1)))"
proof -
  let ?sp = "sweep_spans (Some 0) (sorted_pairs starts ends)"
  let ?cl = "clip b0 b1 ?sp"
  let ?g = "gaps_between b0 ?cl b1"
  have s1: "py_slice (map fst ?sp) (int (searchsorted_right (map snd ?sp) b0))
              (Some (int (searchsorted_left (map fst ?sp) b1))) = map fst ?cl"
    by (simp only: py_slice_map clip_by_search [OF sweep_spans_sorted])
  have s2: "py_slice (map snd ?sp) (int (searchsorted_right (map snd ?sp) b0))
              (Some (int (searchsorted_left (map fst ?sp) b1))) = map snd ?cl"
    by (simp only: py_slice_map clip_by_search [OF sweep_spans_sorted])
  have cs: "b0 # map snd ?cl = map fst ?g" by (simp add: gaps_between_fst)
  have ce: "map fst ?cl @ [b1] = map snd ?g" by (simp add: gaps_between_snd)
  have h: "hd (map fst ?g) = fst (hd ?g)" "hd (map snd ?g) = snd (hd ?g)"
    "last (map fst ?g) = fst (last ?g)" "last (map snd ?g) = snd (last ?g)"
    by (simp_all add: hd_map last_map)
  have m: "merge_intervals starts ends (Some 0) =
      Inr (sweep_ids (Some 0) (sorted_pairs starts ends), map fst ?sp, map snd ?sp)"
    using assms by (simp add: merge_intervals_sweep)
  show ?thesis
    unfolding complement_intervals_def m ebind_def
    apply (simp only: sum.case prod.case Let_def fst_conv snd_conv s1 s2)
    apply (simp only: cs ce h)
    apply (simp only: py_slice_map trim_gaps_def)
    done
qed


lemma covered_iff: "covered ps x \<longleftrightarrow> (\<exists>p \<in> set ps. fst p \<le> x \<and> x < snd p)"
  by (simp add: covered_def list_ex_iff)

lemma covered_Cons [simp]: "covered (p # ps) x \<longleftrightarrow> (fst p \<le> x \<and> x < snd p) \<or> covered ps x"
  by (simp add: covered_def)

lemma covered_Nil [simp]: "\<not> covered [] x"
  by (simp add: covered_def)

lemma spans_cover:
  assumes "\<forall>p \<in> set xs. fst p \<le> snd p" "\<forall>p \<in> set xs. s \<le> fst p" "sorted (map fst xs)"
  shows "covered (spans_from (Some 0) s m xs) x \<longleftrightarrow> (s \<le> x \<and> x < m) \<or> covered xs x"
  using assms
proof (induction xs arbitrary: s m)
  case Nil
  then show ?case by simp
next
  case (Cons p xs)
  obtain s' e where p: "p = (s', e)" by (cases p)
  have wf: "\<forall>q \<in> set xs. fst q \<le> snd q" and se: "s' \<le> e" using Cons.prems(1) by (auto simp: p)
  have ss: "s \<le> s'" and a: "\<forall>q \<in> set xs. s \<le> fst q" using Cons.prems(2) by (auto simp: p)
  have b: "\<forall>q \<in> set xs. s' \<le> fst q" and so: "sorted (map fst xs)"
    using Cons.prems(3) by (auto simp: p)
  show ?case
  proof (cases "is_border (Some 0) s' m")
    case True
    then have "m < s'" by (simp add: is_border_def)
    then have "max m e = e" using se by simp
    then show ?thesis
      using True Cons.IH [OF wf b so, of e] by (auto simp: p)
  next
    case False
    then have "s' \<le> m" by (simp add: is_border_def)
    then show ?thesis
      using False Cons.IH [OF wf a so, of "max m e"] ss se by (auto simp: p)
  qed
qed

lemma spans_wf:
  "s \<le> m \<Longrightarrow> \<forall>p \<in> set xs. fst p \<le> snd p \<Longrightarrow> q \<in> set (spans_from md s m xs) \<Longrightarrow> fst q \<le> snd q"
proof (induction xs arbitrary: s m)
  case Nil
  then show ?case by simp
next
  case (Cons p xs)
  obtain s' e where p: "p = (s', e)" by (cases p)
  have wf: "\<forall>q \<in> set xs. fst q \<le> snd q" and se: "s' \<le> e" using Cons.prems(2) by (auto simp: p)
  have 1: "s' \<le> max m e" using se by simp
  have 2: "s \<le> max m e" using Cons.prems(1) by simp
  show ?case
    using Cons.prems(1,3) Cons.IH [OF 1 wf] Cons.IH [OF 2 wf]
    by (auto simp: p split: if_splits)
qed

lemma chain_drop: "chain md xs \<Longrightarrow> chain md (drop n xs)"
proof (induction md xs arbitrary: n rule: chain.induct)
  case (1 md)
  then show ?case by simp
next
  case (2 md p)
  then show ?case by (cases n) auto
next
  case (3 md p q r)
  then show ?case by (cases n) auto
qed

lemma chain_take: "chain md xs \<Longrightarrow> chain md (take n xs)"
proof (induction md xs arbitrary: n rule: chain.induct)
  case (1 md)
  then show ?case by simp
next
  case (2 md p)
  then show ?case by (cases n) auto
next
  case (3 md p q r)
  from "3.prems" have b: "is_border md (fst q) (snd p)" "snd p \<le> snd q" "chain md (q # r)"
    by simp_all
  have ih: "chain md (take k (q # r))" for k using "3.IH" [OF b(3)] .
  show ?case
  proof (cases n)
    case 0
    then show ?thesis by simp
  next
    case (Suc k)
    show ?thesis
    proof (cases k)
      case 0
      then show ?thesis using Suc by simp
    next
      case (Suc j)
      have "chain md (q # take j r)" using ih [of "Suc j"] by simp
      then show ?thesis using Suc \<open>n = Suc k\<close> b by simp
    qed
  qed
qed

lemma chain_py_slice: "chain md xs \<Longrightarrow> chain md (py_slice xs l h)"
  by (simp add: py_slice_def Let_def chain_take chain_drop)

lemma chain_separated:
  "chain (Some 0) ps \<Longrightarrow> \<forall>p \<in> set ps. fst p \<le> snd p \<Longrightarrow> sorted_wrt (\<lambda>p q. snd p < fst q) ps"
proof (induction "Some (0::int)" ps rule: chain.induct)
  case (3 p q r)
  then have sw: "sorted_wrt (\<lambda>p q. snd p < fst q) (q # r)" and pq: "snd p < fst q"
    and qq: "fst q \<le> snd q"
    by (simp_all add: is_border_def)
  have "snd p < fst x" if "x \<in> set r" for x
    using sw pq qq that by fastforce
  then show ?case using sw pq by auto
qed simp_all

lemma gaps_cover:
  assumes "chain (Some 0) cl" "\<forall>p \<in> set cl. fst p \<le> snd p"
    and "\<forall>p \<in> set cl. b0 \<le> snd p \<and> fst p < b1"
  shows "covered (gaps_between b0 cl b1) x \<longleftrightarrow> b0 \<le> x \<and> x < b1 \<and> \<not> covered cl x"
  using assms
proof (induction cl arbitrary: b0)
  case Nil
  then show ?case by simp
next
  case (Cons p r)
  obtain s e where p: "p = (s, e)" by (cases p)
  have ch: "chain (Some 0) r" using Cons.prems(1) by (cases r) auto
  have wf: "\<forall>q \<in> set r. fst q \<le> snd q" and se: "s \<le> e" using Cons.prems(2) by (auto simp: p)
  have sep: "\<forall>q \<in> set r. e < fst q"
    using chain_separated [OF Cons.prems(1,2)] by (auto simp: p)
  then have b: "\<forall>q \<in> set r. e \<le> snd q \<and> fst q < b1"
    using wf Cons.prems(3) by fastforce
  have be: "b0 \<le> e" and sb: "s < b1" using Cons.prems(3) by (auto simp: p)
  have nr: "\<not> covered r x" if "x < e" using sep that by (fastforce simp: covered_iff)
  show ?case
    using Cons.IH [OF ch wf b] be sb se nr by (auto simp: p)
qed

lemma trim_gaps_cases:
  "trim_gaps c =
     (if fst (hd c) \<ge> snd (hd c) then tl else id)
       ((if fst (last c) \<ge> snd (last c) then butlast else id) c)"
proof -
  have 1: "py_slice c 0 None = c" by (simp add: py_slice_def clamp_index_def)
  have 2: "py_slice c 1 None = tl c"
    by (cases c) (simp_all add: py_slice_def clamp_index_def)
  have n1: "nat (max 0 (int (length c) - 1)) = length c - 1" by (cases c) auto
  have 3: "py_slice c 0 (Some (- 1)) = butlast c"
    by (simp add: py_slice_def clamp_index_def butlast_conv_take n1)
  have 4: "py_slice c 1 (Some (- 1)) = tl (butlast c)"
  proof (cases c)
    case Nil
    then show ?thesis by (simp add: py_slice_def)
  next
    case (Cons a r)
    have "py_slice c 1 (Some (- 1)) = take (length r - 1) r"
      using n1 by (simp add: Cons py_slice_def clamp_index_def Let_def)
    also have "\<dots> = tl (butlast c)"
      by (cases r) (simp_all add: Cons butlast_conv_take)
    finally show ?thesis .
  qed
  show ?thesis by (simp add: trim_gaps_def 1 2 3 4)
qed


lemma list_shape:
  assumes "c \<noteq> []"
  obtains a where "c = [a]" | a mid z where "c = a # mid @ [z]"
proof (cases c)
  case Nil
  then show ?thesis using assms by simp
next
  case (Cons a r)
  show ?thesis
  proof (cases r rule: rev_cases)
    case Nil
    then show ?thesis using Cons that(1) by simp
  next
    case (snoc mid z)
    then show ?thesis using Cons that(2) by simp
  qed
qed

lemma trim_gaps_subset: "c \<noteq> [] \<Longrightarrow> set (trim_gaps c) \<subseteq> set c"
  by (erule list_shape) (auto simp: trim_gaps_cases butlast_append)

lemma trim_gaps_dropped:
  "c \<noteq> [] \<Longrightarrow> g \<in> set c \<Longrightarrow> g \<notin> set (trim_gaps c) \<Longrightarrow> snd g \<le> fst g"
  by (erule list_shape) (auto simp: trim_gaps_cases butlast_append split: if_splits)

lemma trim_gaps_nonempty:
  "c \<noteq> [] \<Longrightarrow> \<forall>g \<in> set (butlast (tl c)). fst g < snd g \<Longrightarrow> g \<in> set (trim_gaps c) \<Longrightarrow> fst g < snd g"
  by (erule list_shape) (auto simp: trim_gaps_cases butlast_append split: if_splits)

lemma trim_gaps_sorted_wrt:
  "c \<noteq> [] \<Longrightarrow> sorted_wrt R c \<Longrightarrow> sorted_wrt R (trim_gaps c)"
  by (erule list_shape) (auto simp: trim_gaps_cases butlast_append sorted_wrt_append)

lemma covered_trim_gaps:
  assumes "c \<noteq> []"
  shows "covered (trim_gaps c) x \<longleftrightarrow> covered c x"
proof
  assume "covered (trim_gaps c) x"
  then show "covered c x" using trim_gaps_subset [OF assms] by (auto simp: covered_iff)
next
  assume "covered c x"
  then obtain g where g: "g \<in> set c" "fst g \<le> x" "x < snd g" by (auto simp: covered_iff)
  then have "g \<in> set (trim_gaps c)" using trim_gaps_dropped [OF assms, of g] by force
  then show "covered (trim_gaps c) x" using g by (auto simp: covered_iff)
qed

lemma inner_gaps_nonempty:
  "chain (Some 0) ((s, e) # r) \<Longrightarrow> g \<in> set (butlast (gaps_between e r b1)) \<Longrightarrow> fst g < snd g"
proof (induction r arbitrary: s e)
  case Nil
  then show ?case by simp
next
  case (Cons q r)
  obtain s' e' where q: "q = (s', e')" by (cases q)
  from Cons.prems(1) have b: "e < s'" and ch: "chain (Some 0) ((s', e') # r)"
    by (simp_all add: q is_border_def)
  show ?case using Cons.prems(2) Cons.IH [OF ch] b by (auto simp: q)
qed

lemma inner_gaps_nonempty':
  assumes "chain (Some 0) cl"
  shows "\<forall>g \<in> set (butlast (tl (gaps_between b0 cl b1))). fst g < snd g"
proof (cases cl)
  case Nil
  then show ?thesis by simp
next
  case (Cons p r)
  obtain s e where p: "p = (s, e)" by (cases p)
  show ?thesis using inner_gaps_nonempty [of s e r _ b1] assms by (auto simp: Cons p)
qed

lemma gaps_sorted:
  assumes "chain (Some 0) cl" "\<forall>p \<in> set cl. fst p \<le> snd p"
  shows "sorted_wrt (\<lambda>g h. snd g \<le> fst h) (gaps_between b0 cl b1)"
  using assms
proof (induction cl arbitrary: b0)
  case Nil
  then show ?case by simp
next
  case (Cons p r)
  obtain s e where p: "p = (s, e)" by (cases p)
  have ch: "chain (Some 0) r" using Cons.prems(1) by (cases r) auto
  have wf: "\<forall>q \<in> set r. fst q \<le> snd q" and se: "s \<le> e" using Cons.prems(2) by (auto simp: p)
  have "sorted (map snd (p # r))" by (rule chain_sorted_snd [OF Cons.prems(1)])
  then have "\<forall>q \<in> set r. e \<le> snd q" by (auto simp: p)
  then have "\<forall>h \<in> set (map fst (gaps_between e r b1)). s \<le> h"
    using se unfolding gaps_between_fst by auto
  then show ?case using Cons.IH [OF ch wf, of e] by (auto simp: p)
qed

lemma zip_map_fst_snd_id: "zip (map fst xs) (map snd xs) = xs"
  by (induction xs) auto

lemma sweep_spans_chain: "chain md (sweep_spans md ps)"
  by (cases ps) (auto simp: sweep_spans_def chain_spans_from)

lemma clip_chain:
  "chain md (clip b0 b1 (sweep_spans md (sorted_pairs starts ends)))"
  using chain_py_slice [OF sweep_spans_chain] clip_by_search [OF sweep_spans_sorted, symmetric]
  by simp

lemma sweep_spans_wf:
  assumes "\<forall>p \<in> set ps. fst p \<le> snd p"
  shows "\<forall>q \<in> set (sweep_spans md ps). fst q \<le> snd q"
proof (cases ps)
  case Nil
  then show ?thesis by (simp add: sweep_spans_def)
next
  case (Cons p xs)
  obtain s e where p: "p = (s, e)" by (cases p)
  have "s \<le> e" "\<forall>p \<in> set xs. fst p \<le> snd p" using assms by (auto simp: Cons p)
  then show ?thesis using spans_wf [of s e xs _ md] by (auto simp: Cons p sweep_spans_def)
qed

lemma sweep_spans_cover:
  assumes "\<forall>p \<in> set ps. fst p \<le> snd p" "sorted (map fst ps)"
  shows "covered (sweep_spans (Some 0) ps) x \<longleftrightarrow> covered ps x"
proof (cases ps)
  case Nil
  then show ?thesis by (simp add: sweep_spans_def)
next
  case (Cons p xs)
  obtain s e where p: "p = (s, e)" by (cases p)
  have "\<forall>p \<in> set xs. fst p \<le> snd p" "\<forall>p \<in> set xs. s \<le> fst p" "sorted (map fst xs)"
    using assms by (auto simp: Cons p)
  from spans_cover [OF this] show ?thesis by (simp add: Cons p sweep_spans_def)
qed

lemma covered_clip:
  assumes "b0 \<le> x" "x < b1"
  shows "covered (clip b0 b1 sp) x \<longleftrightarrow> covered sp x"
  using assms by (force simp: covered_iff clip_def)

text \<open>Claim C5.  For a well-formed interval collection, whenever the Complement Engine
  returns, its gaps are non-empty, ascending and disjoint (each gap ends at or before the
  start of every later one), and a point lies in a gap exactly when it lies in
  \<open>[lo, hi)\<close> and in no input interval.  So the gaps together with the covered points
  of \<open>[lo, hi)\<close> are exactly \<open>[lo, hi)\<close>, and no point is both in a gap and
  covered.  The proof does not use \<open>lo \<le> hi\<close>.\<close>

theorem complement_intervals_correct:
  assumes "complement_intervals starts ends (lo, hi) = Inr (gs, ge)"
    and "\<forall>p \<in> set (zip starts ends). fst p \<le> snd p"
  shows "length gs = length ge
       \<and> (\<forall>g \<in> set (zip gs ge). fst g < snd g)
       \<and> sorted_wrt (\<lambda>g h. snd g \<le> fst h) (zip gs ge)
       \<and> (\<forall>x. covered (zip gs ge) x \<longleftrightarrow> lo \<le> x \<and> x < hi \<and> \<not> covered (zip starts ends) x)"
proof -
  have len: "length ends = length starts"
    using assms(1)
    by (cases "length ends = length starts")
       (simp_all add: complement_intervals_def merge_intervals_sweep ebind_def)
  let ?ps = "sorted_pairs starts ends"
  let ?sp = "sweep_spans (Some 0) ?ps"
  let ?cl = "clip lo hi ?sp"
  let ?c = "gaps_between lo ?cl hi"
  have out: "gs = map fst (trim_gaps ?c)" "ge = map snd (trim_gaps ?c)"
    using assms(1) complement_intervals_gaps [OF len, of lo hi] by simp_all
  then have z: "zip gs ge = trim_gaps ?c" by (simp add: zip_map_fst_snd_id)
  have set_ps: "set ?ps = set (zip starts ends)" by (rule set_sorted_pairs [OF len])
  have wf_ps: "\<forall>p \<in> set ?ps. fst p \<le> snd p" using assms(2) set_ps by simp
  have wf_sp: "\<forall>p \<in> set ?sp. fst p \<le> snd p" by (rule sweep_spans_wf [OF wf_ps])
  then have wf_cl: "\<forall>p \<in> set ?cl. fst p \<le> snd p" by (simp add: clip_def)
  have ch: "chain (Some 0) ?cl" by (rule clip_chain)
  have bd: "\<forall>p \<in> set ?cl. lo \<le> snd p \<and> fst p < hi" by (auto simp: clip_def)
  have 1: "length gs = length ge" by (simp add: out)
  have 2: "\<forall>g \<in> set (zip gs ge). fst g < snd g"
    unfolding z using trim_gaps_nonempty [OF gaps_between_nonempty inner_gaps_nonempty' [OF ch]]
    by blast
  have 3: "sorted_wrt (\<lambda>g h. snd g \<le> fst h) (zip gs ge)"
    unfolding z by (rule trim_gaps_sorted_wrt [OF gaps_between_nonempty gaps_sorted [OF ch wf_cl]])
  have 4: "covered (zip gs ge) x \<longleftrightarrow> lo \<le> x \<and> x < hi \<and> \<not> covered (zip starts ends) x" for x
  proof -
    have "covered (zip gs ge) x \<longleftrightarrow> covered ?c x"
      unfolding z by (rule covered_trim_gaps [OF gaps_between_nonempty])
    also have "\<dots> \<longleftrightarrow> lo \<le> x \<and> x < hi \<and> \<not> covered ?cl x"
      by (rule gaps_cover [OF ch wf_cl bd])
    also have "\<dots> \<longleftrightarrow> lo \<le> x \<and> x < hi \<and> \<not> covered ?sp x"
      using covered_clip [of lo x hi ?sp] by blast
    also have "covered ?sp x \<longleftrightarrow> covered ?ps x"
      by (rule sweep_spans_cover [OF wf_ps sorted_fst_of_keys [OF sorted_sorted_pairs]])
    also have "covered ?ps x \<longleftrightarrow> covered (zip starts ends) x"
      by (simp add: covered_iff set_ps)
    finally show ?thesis .
  qed
  show ?thesis using 1 2 3 4 by blast
qed

text \<open>The example of the specification: \<open>[(1,5), (10,12)]\<close> within \<open>(0, 15)\<close>.\<close>

theorem complement_intervals_correct_witness:
  "complement_intervals [1, 10] [5, 12] (0, 15) = Inr ([0, 5, 12], [1, 10, 15])
   \<and> sorted_wrt (\<lambda>g h. snd g \<le> fst h) (zip [0, 5, 12] [1, 10, 15 :: int])
   \<and> covered (zip [0, 5, 12] [1, 10, 15]) 7
   \<and> \<not> covered (zip [1, 10] [5, 12]) 7
   \<and> \<not> covered (zip [0, 5, 12] [1, 10, 15]) 11
   \<and> covered (zip [1, 10] [5, 12]) 11"
proof -
  have e: "complement_intervals [1, 10] [5, 12] (0, 15) = Inr ([0, 5, 12], [1, 10, 15])"
    by code_simp
  have wf: "\<forall>p \<in> set (zip [1, 10] [5, 12 :: int]). fst p \<le> snd p" by simp
  from complement_intervals_correct [OF e wf] e show ?thesis by (simp add: covered_def)
qed

section \<open>The default bounds of the Complement Engine\<close>

lemma sorted_pairs_filter:
  assumes "length ends = length starts"
  shows "sorted_pairs (map fst (filter P (zip starts ends))) (map snd (filter P (zip starts ends)))
         = filter P (sorted_pairs starts ends)"
proof -
  let ?F = "filter P (zip starts ends)"
  have "sorted_pairs (map fst ?F) (map snd ?F) = sort_key (\<lambda>p. [fst p, snd p]) (zip (map fst ?F) (map snd ?F))"
    by (rule sorted_pairs_sort_key) simp
  also have "\<dots> = sort_key (\<lambda>p. [fst p, snd p]) ?F" by (simp add: zip_map_fst_snd_id)
  also have "\<dots> = filter P (sort_key (\<lambda>p. [fst p, snd p]) (zip starts ends))"
    by (simp add: filter_sort)
  finally show ?thesis by (simp add: sorted_pairs_sort_key [OF assms])
qed

text \<open>Once the running maximum is positive, an interval at or below 0 changes nothing.\<close>

lemma spans_from_filter_positive:
  assumes "0 < m"
  shows "\<exists>E R. m \<le> E \<and> spans_from (Some 0) cs m xs = (cs, E) # R
             \<and> spans_from (Some 0) cs' m (filter above_zero xs) = (cs', E) # R"
  using assms
proof (induction xs arbitrary: cs cs' m)
  case Nil
  then show ?case by simp
next
  case (Cons x xs)
  obtain s e where x: "x = (s, e)" by (cases x)
  have pos: "0 < max m e" using Cons.prems by simp
  show ?case
  proof (cases "above_zero x")
    case False
    then have "s \<le> 0" "e \<le> 0" by (simp_all add: above_zero_def x)
    then have nb: "\<not> is_border (Some 0) s m" and mx: "max m e = m"
      using Cons.prems by (simp_all add: is_border_def)
    from Cons.IH [OF Cons.prems, of cs cs'] show ?thesis
      using False nb mx by (simp add: x)
  next
    case True
    show ?thesis
    proof (cases "is_border (Some 0) s m")
      case b: True
      obtain E R where "spans_from (Some 0) s (max m e) xs = (s, E) # R"
        "spans_from (Some 0) s (max m e) (filter above_zero xs) = (s, E) # R"
        using Cons.IH [OF pos, of s s] by blast
      then show ?thesis using True b by (simp add: x)
    next
      case nb: False
      obtain E R where "max m e \<le> E" "spans_from (Some 0) cs (max m e) xs = (cs, E) # R"
        "spans_from (Some 0) cs' (max m e) (filter above_zero xs) = (cs', E) # R"
        using Cons.IH [OF pos, of cs cs'] by blast
      then show ?thesis using True nb by (simp add: x)
    qed
  qed
qed

lemma gaps_of_spans_drop_head:
  "snd q \<le> b0 \<Longrightarrow> gaps_of_spans b0 b1 (q # sp) = gaps_of_spans b0 b1 sp"
  by (simp add: gaps_of_spans_def clip_def)

lemma gaps_of_spans_head_start:
  assumes "cs \<le> b0" "cs' \<le> b0" "b0 < E" "b0 < b1"
  shows "gaps_of_spans b0 b1 ((cs, E) # R) = gaps_of_spans b0 b1 ((cs', E) # R)"
proof -
  let ?c = "gaps_between E (clip b0 b1 R) b1"
  have c: "clip b0 b1 ((a, E) # R) = (a, E) # clip b0 b1 R" if "a \<le> b0" for a
    using that assms by (simp add: clip_def)
  have "trim_gaps ((b0, a) # ?c) = (if fst (last ?c) \<ge> snd (last ?c) then butlast else id) ?c"
    if "a \<le> b0" for a
    using that by (simp add: trim_gaps_cases)
  then show ?thesis using assms by (simp add: gaps_of_spans_def c)
qed

lemma gaps_of_spans_low:
  assumes "0 < cs" "m \<le> 0" "m' \<le> 0" "\<forall>x \<in> set xs. 0 < fst x"
  shows "gaps_of_spans 0 b1 (spans_from (Some 0) cs m xs)
       = gaps_of_spans 0 b1 (spans_from (Some 0) cs m' xs)"
  using assms
proof (induction xs arbitrary: cs m m')
  case Nil
  then show ?case by (simp add: gaps_of_spans_drop_head)
next
  case (Cons x xs)
  obtain s e where x: "x = (s, e)" by (cases x)
  have s: "0 < s" and r: "\<forall>x \<in> set xs. 0 < fst x" using Cons.prems(4) by (auto simp: x)
  have b: "is_border (Some 0) s m" "is_border (Some 0) s m'"
    using s Cons.prems(2,3) by (simp_all add: is_border_def)
  show ?case
  proof (cases "0 < e")
    case True
    then have "max m e = e" "max m' e = e" using Cons.prems(2,3) by simp_all
    then show ?thesis using b Cons.prems(2,3) by (simp add: x gaps_of_spans_drop_head)
  next
    case False
    then have "max m e \<le> 0" "max m' e \<le> 0" using Cons.prems(2,3) by simp_all
    from Cons.IH [OF s this r] show ?thesis
      using b Cons.prems(2,3) by (simp add: x gaps_of_spans_drop_head)
  qed
qed


lemma filter_above_zero_id: "\<forall>x \<in> set xs. 0 < fst x \<Longrightarrow> filter above_zero xs = xs"
  by (simp add: above_zero_def filter_id_conv)

lemma gaps_of_spans_before:
  assumes "cs \<le> 0" "m \<le> 0" "sorted (map fst xs)" "0 < b1"
  shows "gaps_of_spans 0 b1 (spans_from (Some 0) cs m xs)
       = gaps_of_spans 0 b1 (sweep_spans (Some 0) (filter above_zero xs))"
  using assms(1,2,3)
proof (induction xs arbitrary: cs m)
  case Nil
  then show ?case by (simp add: gaps_of_spans_drop_head sweep_spans_def)
next
  case (Cons x xs)
  obtain s e where x: "x = (s, e)" by (cases x)
  have so: "sorted (map fst xs)" and ge: "\<forall>y \<in> set xs. s \<le> fst y"
    using Cons.prems(3) by (auto simp: x)
  show ?case
  proof (cases "above_zero x")
    case False
    then have se: "s \<le> 0" "e \<le> 0" by (simp_all add: above_zero_def x)
    then have mx: "max m e \<le> 0" using Cons.prems(2) by simp
    show ?thesis
      using False Cons.IH [OF se(1) mx so] Cons.IH [OF Cons.prems(1) mx so] Cons.prems(2)
      by (simp add: x gaps_of_spans_drop_head)
  next
    case True
    have rhs: "sweep_spans (Some 0) (filter above_zero (x # xs))
             = spans_from (Some 0) s e (filter above_zero xs)"
      using True by (simp add: sweep_spans_def x)
    show ?thesis
    proof (cases "0 < e")
      case pos: True
      then have mx: "max m e = e" using Cons.prems(2) by simp
      show ?thesis
      proof (cases "is_border (Some 0) s m")
        case b: True
        obtain E R where "spans_from (Some 0) s e xs = (s, E) # R"
          "spans_from (Some 0) s e (filter above_zero xs) = (s, E) # R"
          using spans_from_filter_positive [OF pos, of s xs s] by blast
        then show ?thesis
          unfolding rhs using b mx Cons.prems(2) by (simp add: x gaps_of_spans_drop_head)
      next
        case nb: False
        then have s0: "s \<le> 0" using Cons.prems(2) by (simp add: is_border_def)
        obtain E R where E: "e \<le> E" "spans_from (Some 0) cs e xs = (cs, E) # R"
          "spans_from (Some 0) s e (filter above_zero xs) = (s, E) # R"
          using spans_from_filter_positive [OF pos, of cs xs s] by blast
        have "0 < E" using pos E(1) by simp
        from gaps_of_spans_head_start [OF Cons.prems(1) s0 this assms(4)]
        show ?thesis unfolding rhs using nb mx E by (simp add: x)
      qed
    next
      case False
      then have e0: "e \<le> 0" by simp
      then have s0: "0 < s" using True by (simp add: above_zero_def x)
      then have b: "is_border (Some 0) s m" using Cons.prems(2) by (simp add: is_border_def)
      have all: "\<forall>y \<in> set xs. 0 < fst y" using ge s0 by fastforce
      have mx: "max m e \<le> 0" using e0 Cons.prems(2) by simp
      show ?thesis
        unfolding rhs filter_above_zero_id [OF all]
        using b Cons.prems(2) gaps_of_spans_low [OF s0 mx e0 all, of b1]
        by (simp add: x gaps_of_spans_drop_head)
    qed
  qed
qed

lemma gaps_of_spans_filter:
  assumes "sorted (map fst ps)" "0 < b1"
  shows "gaps_of_spans 0 b1 (sweep_spans (Some 0) (filter above_zero ps))
       = gaps_of_spans 0 b1 (sweep_spans (Some 0) ps)"
proof (cases ps)
  case Nil
  then show ?thesis by simp
next
  case (Cons x xs)
  obtain s e where x: "x = (s, e)" by (cases x)
  have so: "sorted (map fst xs)" and ge: "\<forall>y \<in> set xs. s \<le> fst y"
    using assms(1) by (auto simp: Cons x)
  show ?thesis
  proof (cases "above_zero x")
    case False
    then have se: "s \<le> 0" "e \<le> 0" by (simp_all add: above_zero_def x)
    from gaps_of_spans_before [OF se so assms(2)] show ?thesis
      using False by (simp add: Cons x sweep_spans_def)
  next
    case True
    show ?thesis
    proof (cases "0 < e")
      case pos: True
      obtain E R where "spans_from (Some 0) s e xs = (s, E) # R"
        "spans_from (Some 0) s e (filter above_zero xs) = (s, E) # R"
        using spans_from_filter_positive [OF pos, of s xs s] by blast
      then show ?thesis using True by (simp add: Cons x sweep_spans_def)
    next
      case False
      then have "0 < s" using True by (simp add: above_zero_def x)
      then have "\<forall>y \<in> set xs. 0 < fst y" using ge by fastforce
      from filter_above_zero_id [OF this] show ?thesis
        using True by (simp add: Cons x sweep_spans_def)
    qed
  qed
qed

lemma spans_from_snd:
  "q \<in> set (spans_from md s m xs) \<Longrightarrow> snd q = m \<or> snd q \<in> snd ` set xs"
proof (induction xs arbitrary: s m)
  case Nil
  then show ?case by simp
next
  case (Cons x xs)
  obtain s' e where x: "x = (s', e)" by (cases x)
  from Cons.prems Cons.IH [of s' "max m e"] Cons.IH [of s "max m e"]
  show ?case by (auto simp: x max_def split: if_splits)
qed

lemma sweep_spans_snd:
  assumes "q \<in> set (sweep_spans md ps)"
  shows "snd q \<in> snd ` set ps"
proof (cases ps)
  case Nil
  then show ?thesis using assms by (simp add: sweep_spans_def)
next
  case (Cons x xs)
  obtain s e where x: "x = (s, e)" by (cases x)
  show ?thesis using assms spans_from_snd [of q md s e xs] by (auto simp: Cons x sweep_spans_def)
qed

lemma trim_gaps_keeps_last:
  "c \<noteq> [] \<Longrightarrow> fst (last c) < snd (last c) \<Longrightarrow> trim_gaps c \<noteq> [] \<and> last (trim_gaps c) = last c"
  by (erule list_shape) (auto simp: trim_gaps_cases)


lemma complement_intervals_gaps_of_spans:
  assumes "length ends = length starts"
  shows "complement_intervals starts ends (b0, b1) =
           Inr (map fst (gaps_of_spans b0 b1 (sweep_spans (Some 0) (sorted_pairs starts ends))),
                map snd (gaps_of_spans b0 b1 (sweep_spans (Some 0) (sorted_pairs starts ends))))"
  unfolding gaps_of_spans_def by (rule complement_intervals_gaps [OF assms])

lemma complement_intervals_Inr_length:
  assumes "complement_intervals starts ends bounds = Inr r"
  shows "length ends = length starts"
  using assms
  by (cases "length ends = length starts")
     (simp_all add: complement_intervals_def merge_intervals_sweep ebind_def)

lemma gaps_of_spans_bounds:
  assumes "g \<in> set (gaps_of_spans b0 b1 sp)"
  shows "b0 \<le> fst g \<and> snd g \<le> b1"
proof -
  let ?c = "gaps_between b0 (clip b0 b1 sp) b1"
  have g: "g \<in> set ?c"
    using assms trim_gaps_subset [OF gaps_between_nonempty, of b0 "clip b0 b1 sp" b1]
    by (auto simp: gaps_of_spans_def)
  then have "fst g \<in> set (map fst ?c)" "snd g \<in> set (map snd ?c)" by auto
  then show ?thesis
    unfolding gaps_between_fst gaps_between_snd by (auto simp: clip_def)
qed

text \<open>Claim C10.  With the bounds omitted the Complement Engine works within
  \<open>(0, 2\<^sup>6\<^sup>3 - 1)\<close>.  Whenever it returns, for every input: each reported gap is
  non-empty and lies within \<open>[0, 2\<^sup>6\<^sup>3 - 1]\<close>, so no gap at a negative coordinate
  is reported; the result is the same when every interval with both ends at or below 0 is
  removed from the input, so coverage fully below 0 is ignored; and the last reported gap
  ends at \<open>2\<^sup>6\<^sup>3 - 1\<close>, unless an input interval reaches \<open>2\<^sup>6\<^sup>3 - 1\<close>
  (then the trailing gap may be empty and is not reported).\<close>

theorem complement_intervals_default_bounds:
  assumes "complement_intervals_default starts ends = Inr (gs, ge)"
  shows "int64_max = 2 ^ 63 - 1
       \<and> complement_intervals starts ends (0, 2 ^ 63 - 1) = Inr (gs, ge)
       \<and> length gs = length ge
       \<and> (\<forall>g \<in> set (zip gs ge). 0 \<le> fst g \<and> fst g < snd g \<and> snd g \<le> 2 ^ 63 - 1)
       \<and> complement_intervals_default
            (map fst (filter above_zero (zip starts ends)))
            (map snd (filter above_zero (zip starts ends))) = Inr (gs, ge)
       \<and> ((ge \<noteq> [] \<and> last ge = 2 ^ 63 - 1) \<or> (\<exists>e \<in> set ends. 2 ^ 63 - 1 \<le> e))"
proof -
  have M: "int64_max = 2 ^ 63 - 1" by (simp add: int64_max_def)
  have Mpos: "0 < int64_max" by (simp add: int64_max_def)
  have c: "complement_intervals starts ends (0, int64_max) = Inr (gs, ge)"
    using assms by (simp add: complement_intervals_default_def)
  have len: "length ends = length starts" by (rule complement_intervals_Inr_length [OF c])
  let ?ps = "sorted_pairs starts ends"
  let ?sp = "sweep_spans (Some 0) ?ps"
  let ?cl = "clip 0 int64_max ?sp"
  let ?c = "gaps_between 0 ?cl int64_max"
  let ?out = "gaps_of_spans 0 int64_max ?sp"
  have out: "gs = map fst ?out" "ge = map snd ?out"
    using c complement_intervals_gaps_of_spans [OF len, of 0 int64_max] by simp_all
  then have z: "zip gs ge = ?out" by (simp add: zip_map_fst_snd_id)
  have 1: "length gs = length ge" by (simp add: out)
  have ne: "\<forall>g \<in> set ?out. fst g < snd g"
    unfolding gaps_of_spans_def
    using trim_gaps_nonempty [OF gaps_between_nonempty inner_gaps_nonempty' [OF clip_chain]]
    by blast
  have 2: "\<forall>g \<in> set (zip gs ge). 0 \<le> fst g \<and> fst g < snd g \<and> snd g \<le> int64_max"
    unfolding z using ne gaps_of_spans_bounds [of _ 0 int64_max ?sp] by blast
  have 3: "complement_intervals_default
            (map fst (filter above_zero (zip starts ends)))
            (map snd (filter above_zero (zip starts ends))) = Inr (gs, ge)"
  proof -
    let ?F = "filter above_zero (zip starts ends)"
    have l: "length (map snd ?F) = length (map fst ?F)" by simp
    have "gaps_of_spans 0 int64_max (sweep_spans (Some 0) (filter above_zero ?ps)) = ?out"
      by (rule gaps_of_spans_filter [OF sorted_fst_of_keys [OF sorted_sorted_pairs] Mpos])
    then show ?thesis
      unfolding complement_intervals_default_def complement_intervals_gaps_of_spans [OF l]
        sorted_pairs_filter [OF len] out
      by simp
  qed
  have 4: "(ge \<noteq> [] \<and> last ge = int64_max) \<or> (\<exists>e \<in> set ends. int64_max \<le> e)"
  proof (cases "\<exists>e \<in> set ends. int64_max \<le> e")
    case True
    then show ?thesis by blast
  next
    case False
    then have lt: "\<forall>e \<in> set ends. e < int64_max" by auto
    have "snd q < int64_max" if "q \<in> set ?cl" for q
    proof -
      have "q \<in> set ?sp" using that by (simp add: clip_def)
      then have "snd q \<in> snd ` set ?ps" by (rule sweep_spans_snd)
      then have "snd q \<in> set ends"
        unfolding set_sorted_pairs [OF len] by (auto dest: set_zip_rightD)
      then show ?thesis using lt by blast
    qed
    then have "\<forall>v \<in> set (0 # map snd ?cl). v < int64_max" using Mpos by auto
    then have "last (0 # map snd ?cl) < int64_max" using last_in_set [of "0 # map snd ?cl"] by blast
    then have "last (map fst ?c) < last (map snd ?c)"
      unfolding gaps_between_fst gaps_between_snd by simp
    then have "fst (last ?c) < snd (last ?c)" by (simp add: last_map)
    from trim_gaps_keeps_last [OF gaps_between_nonempty this]
    have k: "?out \<noteq> []" "last ?out = last ?c" by (simp_all add: gaps_of_spans_def)
    have "last ge = snd (last ?c)" using k by (simp add: out(2) last_map)
    also have "\<dots> = last (map snd ?c)" by (simp add: last_map)
    also have "\<dots> = int64_max" unfolding gaps_between_snd by simp
    finally show ?thesis using k(1) by (simp add: out(2))
  qed
  show ?thesis using M c 1 2 3 4 unfolding M by blast
qed

text \<open>An input with one interval fully below 0 and one that straddles 0.\<close>

theorem complement_intervals_default_bounds_witness:
  "complement_intervals_default [- 9, - 5, 4] [- 7, 3, 6]
     = Inr ([3, 6], [4, 9223372036854775807])
   \<and> complement_intervals_default [- 5, 4] [3, 6] = Inr ([3, 6], [4, 9223372036854775807])
   \<and> filter above_zero (zip [- 9, - 5, 4] [- 7, 3, 6]) = [(- 5, 3), (4, 6)]
   \<and> last [4, 9223372036854775807 :: int] = 2 ^ 63 - 1"
proof -
  have e: "complement_intervals_default [- 9, - 5, 4] [- 7, 3, 6]
     = Inr ([3, 6], [4, 9223372036854775807])"
    by code_simp
  have f: "filter above_zero (zip [- 9, - 5, 4] [- 7, 3, 6]) = [(- 5, 3), (4, 6)]"
    by (simp add: above_zero_def)
  from complement_intervals_default_bounds [OF e] f show ?thesis using e by simp
qed

section \<open>Properties of the Range Expander\<close>

lemma rep_cat_simps [simp]:
  "rep_cat [] ls = []" "rep_cat xs [] = []"
  "rep_cat (x # xs) (l # ls) = replicate (nat l) x @ rep_cat xs ls"
  by (simp_all add: rep_cat_def)

lemma np_repeat_same_length:
  assumes "length ls = length xs" "\<forall>l \<in> set ls. 0 \<le> l"
  shows "np_repeat xs ls = Inr (rep_cat xs ls)"
proof (cases "length ls = 1")
  case True
  then obtain l where ls: "ls = [l]" by (cases ls) auto
  with assms(1) obtain x where xs: "xs = [x]" by (cases xs) auto
  have "0 \<le> l" using assms(2) ls by simp
  then show ?thesis by (simp add: np_repeat_def ls xs rep_cat_def)
next
  case False
  have "\<not> list_ex (\<lambda>r. r < 0) ls" using assms(2) by (auto simp: list_ex_iff)
  then show ?thesis using False assms(1) by (simp add: np_repeat_def rep_cat_def)
qed

lemma length_rep_cat:
  "length ls = length xs \<Longrightarrow> \<forall>l \<in> set ls. 0 \<le> l \<Longrightarrow> length (rep_cat xs ls) = nat (sum_list ls)"
proof (induction ls xs rule: list_induct2)
  case Nil
  then show ?case by simp
next
  case (Cons l ls x xs)
  then have "0 \<le> sum_list ls" by (simp add: sum_list_nonneg)
  then show ?case using Cons by (simp add: nat_add_distrib)
qed

lemma cat_range_core:
  assumes "length ls = length ss" "\<forall>l \<in> set ls. 0 \<le> l"
  shows "map2 (+) (rep_cat ss ls)
           (map2 (-) (map (\<lambda>k. a + int k) [0..<nat (sum_list ls)])
                     (rep_cat (map2 (-) (cumsum_from a ls) ls) ls))
         = ranges_concat ss ls"
  using assms
proof (induction ls ss arbitrary: a rule: list_induct2)
  case Nil
  then show ?case by (simp add: ranges_concat_def)
next
  case (Cons l ls s ss)
  have l0: "0 \<le> l" and ls0: "\<forall>l \<in> set ls. 0 \<le> l" using Cons.prems by simp_all
  have sum0: "0 \<le> sum_list ls" using ls0 by (simp add: sum_list_nonneg)
  have idx: "map (\<lambda>k. a + int k) [0..<nat (sum_list (l # ls))]
           = map (\<lambda>k. a + int k) [0..<nat l] @ map (\<lambda>k. (a + l) + int k) [0..<nat (sum_list ls)]"
  proof -
    have n: "nat (l + sum_list ls) = nat l + nat (sum_list ls)"
      using l0 sum0 by (simp add: nat_add_distrib)
    have "[0..<nat l + nat (sum_list ls)] = [0..<nat l] @ [nat l..<nat l + nat (sum_list ls)]"
      by (rule upt_add_eq_append) simp
    also have "[nat l..<nat l + nat (sum_list ls)] = map (\<lambda>k. k + nat l) [0..<nat (sum_list ls)]"
      by (simp only: map_add_upt add.commute)
    finally have "[0..<nat (l + sum_list ls)]
        = [0..<nat l] @ map (\<lambda>k. k + nat l) [0..<nat (sum_list ls)]"
      by (simp only: n)
    then show ?thesis using l0 by (simp add: comp_def algebra_simps)
  qed
  have off: "rep_cat (map2 (-) (cumsum_from a (l # ls)) (l # ls)) (l # ls)
           = replicate (nat l) a @ rep_cat (map2 (-) (cumsum_from (a + l) ls) ls) ls"
    by simp
  have first: "map2 (+) (replicate (nat l) s)
                 (map2 (-) (map (\<lambda>k. a + int k) [0..<nat l]) (replicate (nat l) a))
             = irange s l"
    by (intro nth_equalityI) (simp_all add: irange_def)
  have "map2 (+) (rep_cat (s # ss) (l # ls))
           (map2 (-) (map (\<lambda>k. a + int k) [0..<nat (sum_list (l # ls))])
                     (rep_cat (map2 (-) (cumsum_from a (l # ls)) (l # ls)) (l # ls)))
      = map2 (+) (replicate (nat l) s)
                 (map2 (-) (map (\<lambda>k. a + int k) [0..<nat l]) (replicate (nat l) a))
        @ map2 (+) (rep_cat ss ls)
           (map2 (-) (map (\<lambda>k. (a + l) + int k) [0..<nat (sum_list ls)])
                     (rep_cat (map2 (-) (cumsum_from (a + l) ls) ls) ls))"
    unfolding idx off by (simp add: zip_append)
  also have "\<dots> = irange s l @ ranges_concat ss ls"
    unfolding first using Cons.IH [OF ls0, of "a + l"] by simp
  finally show ?case by (simp add: ranges_concat_def)
qed

lemma map_wrap_if_id: "(w \<Longrightarrow> \<forall>v \<in> set xs. in64 v) \<Longrightarrow> map (wrap_if w) xs = xs"
  by (rule map_idI) (auto simp: wrap_if_def wrap64_id)

lemma map2_wrap_if: "map2 (\<lambda>a c. wrap_if w (f a c)) xs ys = map (wrap_if w) (map2 f xs ys)"
  by (simp add: case_prod_beta)

lemma cat_range_ok:
  assumes "length ls = length ss" "\<forall>l \<in> set ls. 0 \<le> l"
    and "w \<Longrightarrow> \<forall>v \<in> set (ranges_concat ss ls). in64 v"
  shows "cat_range w ss ls = Inr (ranges_concat ss ls)"
proof -
  let ?offs = "map2 (-) (cumsum ls) ls"
  let ?cnt = "map2 (-) (map int [0..<nat (sum_list ls)]) (rep_cat ?offs ls)"
  have lo: "length ls = length ?offs" by (simp add: cumsum_def)
  have r1: "np_repeat ss ls = Inr (rep_cat ss ls)"
    by (rule np_repeat_same_length [OF assms(1,2)])
  have r2: "np_repeat ?offs ls = Inr (rep_cat ?offs ls)"
    by (rule np_repeat_same_length [OF lo assms(2)])
  have l1: "length (rep_cat ss ls) = nat (sum_list ls)" by (rule length_rep_cat [OF assms(1,2)])
  have l2: "length (rep_cat ?offs ls) = nat (sum_list ls)" by (rule length_rep_cat [OF lo assms(2)])
  have b1: "broadcast2 (-) (map int [0..<nat (sum_list ls)]) (rep_cat ?offs ls) = Inr ?cnt"
    by (simp add: broadcast2_def l2)
  have b2: "broadcast2 (\<lambda>a c. wrap_if w (a + c)) (rep_cat ss ls) ?cnt
          = Inr (map2 (\<lambda>a c. wrap_if w (a + c)) (rep_cat ss ls) ?cnt)"
    by (simp add: broadcast2_def l1 l2)
  have core: "map2 (+) (rep_cat ss ls) ?cnt = ranges_concat ss ls"
    using cat_range_core [OF assms(1,2), of 0] by (simp add: cumsum_def)
  have "map2 (\<lambda>a c. wrap_if w (a + c)) (rep_cat ss ls) ?cnt = map (wrap_if w) (ranges_concat ss ls)"
    by (simp only: map2_wrap_if core)
  also have "\<dots> = ranges_concat ss ls"
    by (rule map_wrap_if_id) (rule assms(3))
  finally have fin: "map2 (\<lambda>a c. wrap_if w (a + c)) (rep_cat ss ls) ?cnt = ranges_concat ss ls" .
  show ?thesis
    unfolding cat_range_def r1 ebind_def sum.case r2 b1 b2 fin ..
qed




lemma ranges_concat_stops_set:
  "length es = length ss \<Longrightarrow> v \<in> set (ranges_concat ss (map2 (\<lambda>s e. e - s) ss es)) \<Longrightarrow>
   \<exists>p \<in> set (zip ss es). fst p \<le> v \<and> v < snd p"
  by (induction es ss rule: list_induct2) (auto simp: ranges_concat_def irange_def)

text \<open>The ranges from starts and stops, once the starts and the stops are arrays of one
  length: the lengths \<open>stop - start\<close> are exact when they lie within the
  \<^verbatim>\<open>int64\<close> range, and so is every value between a start and its stop.\<close>

lemma cat_range_stops:
  assumes len: "length es = length ss"
    and wf: "\<forall>p \<in> set (zip ss es). fst p \<le> snd p"
    and rng: "w \<Longrightarrow> list_all in64 ss \<and> list_all in64 es"
  shows "cat_range w ss (map2 (\<lambda>s e. e - s) ss es)
       = Inr (ranges_concat ss (map2 (\<lambda>s e. e - s) ss es))"
proof (rule cat_range_ok)
  show "length (map2 (\<lambda>s e. e - s) ss es) = length ss" using len by simp
  show "\<forall>l \<in> set (map2 (\<lambda>s e. e - s) ss es). 0 \<le> l" using wf by auto
  show "\<forall>v \<in> set (ranges_concat ss (map2 (\<lambda>s e. e - s) ss es)). in64 v" if w
  proof
    fix v assume "v \<in> set (ranges_concat ss (map2 (\<lambda>s e. e - s) ss es))"
    then obtain p where p: "p \<in> set (zip ss es)" "fst p \<le> v" "v < snd p"
      using ranges_concat_stops_set [OF len] by blast
    have "(fst p, snd p) \<in> set (zip ss es)" using p(1) by simp
    then have "fst p \<in> set ss" "snd p \<in> set es"
      by (rule set_zip_leftD, rule set_zip_rightD)
    then have "in64 (fst p)" "in64 (snd p)" using rng [OF that] by (simp_all add: list_all_iff)
    then show "in64 v" using p(2,3) by (simp add: in64_def)
  qed
qed

lemma arange_multi_stops_ok:
  assumes "length es = length ss" "\<forall>l \<in> set (map2 (-) es ss). 0 \<le> l"
    and "int64_arrays ss es \<Longrightarrow> \<forall>l \<in> set (map2 (-) es ss). in64 l"
  shows "arange_multi (Array ss) (Some es) None = Inr (ranges_concat ss (map2 (-) es ss))"
proof -
  let ?w = "int64_arrays ss es"
  have m: "map2 (-) es ss = map2 (\<lambda>s e. e - s) ss es"
    using assms(1) by (intro nth_equalityI) auto
  have "map2 (\<lambda>e s. wrap_if ?w (e - s)) es ss = map (wrap_if ?w) (map2 (-) es ss)"
    by (rule map2_wrap_if)
  also have "\<dots> = map2 (-) es ss"
    by (rule map_wrap_if_id) (rule assms(3))
  finally have bc: "broadcast2 (\<lambda>e s. wrap_if ?w (e - s)) es ss = Inr (map2 (\<lambda>s e. e - s) ss es)"
    using assms(1) by (simp add: broadcast2_def m)
  have wf: "\<forall>p \<in> set (zip ss es). fst p \<le> snd p"
    using assms(2) unfolding m by auto
  have "cat_range ?w ss (map2 (\<lambda>s e. e - s) ss es)
      = Inr (ranges_concat ss (map2 (\<lambda>s e. e - s) ss es))"
    by (rule cat_range_stops [OF assms(1) wf]) (simp add: int64_arrays_def)
  then show ?thesis
    by (simp add: arange_multi_def Let_def bc ebind_def m)
qed










section \<open>Properties of the Overlap Join\<close>

lemma mask_select_map: "mask_select (map f xs) (map g xs) = map f (filter g xs)"
  by (induction xs) auto

lemma fancy_index_nat:
  "\<forall>p \<in> set ps. p < length a \<Longrightarrow> fancy_index a (map int ps) = Inr (map (\<lambda>p. a ! p) ps)"
  by (auto simp: fancy_index_def list_all_iff)

lemma fancy_index_in_range:
  "\<forall>i \<in> set idx. 0 \<le> i \<and> i < int (length a) \<Longrightarrow>
   fancy_index a idx = Inr (map (\<lambda>i. a ! nat i) idx)"
  by (auto simp: fancy_index_def list_all_iff)

lemma length_ranges_concat:
  "length ls = length ss \<Longrightarrow> \<forall>l \<in> set ls. 0 \<le> l \<Longrightarrow> length (ranges_concat ss ls) = nat (sum_list ls)"
proof (induction ls ss rule: list_induct2)
  case Nil
  then show ?case by (simp add: ranges_concat_def)
next
  case (Cons l ls s ss)
  then have "0 \<le> sum_list ls" by (simp add: sum_list_nonneg)
  then show ?case using Cons by (simp add: ranges_concat_def irange_def nat_add_distrib)
qed

lemma zip_rep_ranges:
  "zip (rep_cat (map f ps) (map c ps)) (map h (ranges_concat (map s ps) (map c ps)))
   = concat (map (\<lambda>p. map (\<lambda>k. (f p, h (s p + int k))) [0..<nat (c p)]) ps)"
proof (induction ps)
  case Nil
  then show ?case by (simp add: ranges_concat_def)
next
  case (Cons p ps)
  have first: "zip (replicate (nat (c p)) (f p)) (map h (irange (s p) (c p)))
             = map (\<lambda>k. (f p, h (s p + int k))) [0..<nat (c p)]"
    by (intro nth_equalityI) (simp_all add: irange_def)
  have rc: "ranges_concat (map s (p # ps)) (map c (p # ps))
          = irange (s p) (c p) @ ranges_concat (map s ps) (map c ps)"
    by (simp add: ranges_concat_def)
  have "zip (rep_cat (map f (p # ps)) (map c (p # ps)))
            (map h (ranges_concat (map s (p # ps)) (map c (p # ps))))
      = zip (replicate (nat (c p)) (f p)) (map h (irange (s p) (c p)))
        @ zip (rep_cat (map f ps) (map c ps)) (map h (ranges_concat (map s ps) (map c ps)))"
    unfolding rc by (simp add: zip_append irange_def)
  then show ?case unfolding first Cons.IH by simp
qed

lemma ranges_concat_set:
  "i \<in> set (ranges_concat (map s ps) (map c ps)) \<Longrightarrow>
   \<exists>p \<in> set ps. s p \<le> i \<and> i < s p + c p"
  by (induction ps) (auto simp: ranges_concat_def irange_def)


lemma length_sorted_order [simp]: "length (sorted_order starts ends) = length starts"
  by (simp add: sorted_order_def)

lemma set_sorted_order [simp]: "set (sorted_order starts ends) = {0..<length starts}"
  by (simp add: sorted_order_def)

lemma map_over_indices: "map f xs = map (\<lambda>p. f (xs ! p)) [0..<length xs]"
  by (intro nth_equalityI) auto

lemma take_idx_pairs_sorted:
  "take_idx D (sorted_order (map fst D) (map snd D)) = sorted_pairs (map fst D) (map snd D)"
  by (auto simp: take_idx_def sorted_pairs_def)

lemma map2_map_same: "map2 h (map f xs) (map g xs) = map (\<lambda>x. h (f x) (g x)) xs"
  by (induction xs) auto

lemma nat_idx: "nat (int p + 1 + int k) = p + 1 + k"
  by simp

lemma decode_chain:
  "map (\<lambda>(a, b). (a, b - 1)) (map (\<lambda>(a, b). (a * (- 1) - 1, b))
     (map (\<lambda>(a, b). (min a b, max a b)) xs)) = map decode_pair xs"
  by (simp add: decode_pair_def case_prod_beta)

lemma overlap_intervals_unfold:
  assumes len: "length (ends1 @ ends2) = length (starts1 @ starts2)"
  shows "overlap_intervals starts1 ends1 starts2 ends2
       = Inr (sorted_pairs (map fst (joined_pairs starts1 ends1 starts2 ends2))
                           (map snd (joined_pairs starts1 ends1 starts2 ends2)))"
proof -
  let ?starts = "starts1 @ starts2" and ?ends = "ends1 @ ends2"
  let ?ids = "map (\<lambda>i. - int i) [1..<length starts1 + 1] @ map int [1..<length starts2 + 1]"
  let ?order = "sorted_order ?starts ?ends"
  let ?S = "take_idx ?starts ?order" and ?E = "take_idx ?ends ?order" and ?I = "take_idx ?ids ?order"
  let ?n = "length starts1 + length starts2"
  let ?me = "\<lambda>p. int (searchsorted_left ?S (?E ! p))"
  let ?c = "\<lambda>p. ?me p - int p - 1"
  let ?allms = "map int [0..<?n]"
  let ?allme = "map (\<lambda>e. int (searchsorted_left ?S e)) ?E"
  let ?mask = "map2 (\<lambda>me ms. me > ms + 1) ?allme ?allms"
  define PS where "PS = filter (\<lambda>p. ?me p > int p + 1) [0..<length ?S]"
  have lS: "length ?S = ?n" and lE: "length ?E = ?n" and lI: "length ?I = ?n"
    by (simp_all add: take_idx_def)
  have lx: "lexsort [?ends, ?starts] = Inr ?order"
    using len by (simp add: lexsort_pair)
  have allme: "?allme = map ?me [0..<?n]"
    using map_over_indices [of "\<lambda>e. int (searchsorted_left ?S e)" ?E] by (simp only: lE)
  have mask: "map2 (\<lambda>me ms. me > ms + 1) (map ?me [0..<?n]) ?allms
            = map (\<lambda>p. ?me p > int p + 1) [0..<?n]"
    by (rule map2_map_same)
  have F1: "mask_select ?allms ?mask = map int PS"
    unfolding allme mask PS_def lS by (rule mask_select_map)
  have F2: "mask_select ?allme ?mask = map ?me PS"
    unfolding allme mask PS_def lS by (rule mask_select_map)
  have PS_lt: "\<forall>p \<in> set PS. p < ?n" by (auto simp: PS_def lS)
  have PS_c: "\<forall>p \<in> set PS. 0 \<le> ?c p" by (auto simp: PS_def)
  have PS_ltI: "\<forall>p \<in> set PS. p < length ?I" unfolding lI by (rule PS_lt)
  have F3: "fancy_index ?I (map int PS) = Inr (map (\<lambda>p. ?I ! p) PS)"
    by (rule fancy_index_nat [OF PS_ltI])
  have cnt: "map2 (\<lambda>me ms. me - ms - 1) (map ?me PS) (map int PS) = map ?c PS"
    by (rule map2_map_same)
  have F4: "np_repeat (map (\<lambda>p. ?I ! p) PS) (map ?c PS)
          = Inr (rep_cat (map (\<lambda>p. ?I ! p) PS) (map ?c PS))"
    using PS_c by (intro np_repeat_same_length) auto
  have st: "map (\<lambda>ms. ms + 1) (map int PS) = map (\<lambda>p. int p + 1) PS" by simp
  have ln: "map2 (-) (map ?me PS) (map (\<lambda>p. int p + 1) PS) = map ?c PS"
    by (simp add: map2_map_same)
  have PS_r: "\<forall>p \<in> set PS. in64 (?c p)"
    if "int64_arrays (map (\<lambda>p. int p + 1) PS) (map ?me PS)"
  proof
    fix p assume p: "p \<in> set PS"
    then have "in64 (?me p)" using that by (simp add: int64_arrays_def list_all_iff)
    moreover have "0 \<le> ?c p" using PS_c p by blast
    ultimately show "in64 (?c p)" by (simp add: in64_def)
  qed
  have F5: "arange_multi (Array (map (\<lambda>p. int p + 1) PS)) (Some (map ?me PS)) None
          = Inr (ranges_concat (map (\<lambda>p. int p + 1) PS) (map ?c PS))"
    using arange_multi_stops_ok [of "map ?me PS" "map (\<lambda>p. int p + 1) PS"] PS_c PS_r
    unfolding ln by simp
  let ?idx = "ranges_concat (map (\<lambda>p. int p + 1) PS) (map ?c PS)"
  have me_le: "?me p \<le> int ?n" for p
    using length_filter_le [of "\<lambda>x. x < ?E ! p" ?S] by (simp add: searchsorted_left_def lS)
  have idx_rng: "\<forall>i \<in> set ?idx. 0 \<le> i \<and> i < int (length ?I)"
  proof
    fix i assume "i \<in> set ?idx"
    then obtain p where "int p + 1 \<le> i" "i < int p + 1 + ?c p"
      using ranges_concat_set [of i "\<lambda>p. int p + 1" PS ?c] by blast
    then show "0 \<le> i \<and> i < int (length ?I)" unfolding lI using me_le [of p] by linarith
  qed
  have F6: "fancy_index ?I ?idx = Inr (map (\<lambda>i. ?I ! nat i) ?idx)"
    by (rule fancy_index_in_range [OF idx_rng])
  have raw: "zip (rep_cat (map (\<lambda>p. ?I ! p) PS) (map ?c PS)) (map (\<lambda>i. ?I ! nat i) ?idx)
           = raw_pairs ?S ?E ?I"
    unfolding zip_rep_ranges raw_pairs_def PS_def by (simp only: nat_idx)
  have ll: "length (rep_cat (map (\<lambda>p. ?I ! p) PS) (map ?c PS)) = length (map (\<lambda>i. ?I ! nat i) ?idx)"
    using PS_c by (simp add: length_rep_cat length_ranges_concat)
  have F7: "vstack_T (rep_cat (map (\<lambda>p. ?I ! p) PS) (map ?c PS)) (map (\<lambda>i. ?I ! nat i) ?idx)
          = Inr (raw_pairs ?S ?E ?I)"
    unfolding vstack_T_def raw [symmetric] using ll by simp
  let ?D = "joined_pairs starts1 ends1 starts2 ends2"
  have D: "map (\<lambda>(a, b). (a, b - 1)) (map (\<lambda>(a, b). (a * (- 1) - 1, b))
             (map (\<lambda>(a, b). (min a b, max a b)) (filter (\<lambda>(a, b). a * b \<le> 0) (raw_pairs ?S ?E ?I))))
           = ?D"
    by (simp only: joined_pairs_def Let_def tagged_ids_def decode_chain)
  have F8: "lexsort [map snd ?D, map fst ?D] = Inr (sorted_order (map fst ?D) (map snd ?D))"
    by (simp add: lexsort_pair)
  show ?thesis
    unfolding overlap_intervals_def Let_def lx ebind_def sum.case
    apply (simp only: F1 F2)
    apply (simp only: F3 sum.case cnt F4 st F5 F6 F7 D F8 take_idx_pairs_sorted)
    done
qed

lemma raw_pairs_set:
  "(x, y) \<in> set (raw_pairs S E I) \<longleftrightarrow>
   (\<exists>p q. p < length S \<and> p < q \<and> q < searchsorted_left S (E ! p) \<and> x = I ! p \<and> y = I ! q)"
proof
  assume "(x, y) \<in> set (raw_pairs S E I)"
  then obtain p k where "p < length S" "k < nat (int (searchsorted_left S (E ! p)) - int p - 1)"
    "x = I ! p" "y = I ! (p + 1 + k)"
    by (auto simp: raw_pairs_def)
  then have "p < length S \<and> p < p + 1 + k \<and> p + 1 + k < searchsorted_left S (E ! p)
      \<and> x = I ! p \<and> y = I ! (p + 1 + k)"
    by auto
  then show "\<exists>p q. p < length S \<and> p < q \<and> q < searchsorted_left S (E ! p) \<and> x = I ! p \<and> y = I ! q"
    by blast
next
  assume "\<exists>p q. p < length S \<and> p < q \<and> q < searchsorted_left S (E ! p) \<and> x = I ! p \<and> y = I ! q"
  then obtain p q where h: "p < length S" "p < q" "q < searchsorted_left S (E ! p)"
    "x = I ! p" "y = I ! q" by blast
  define k where "k = q - p - 1"
  have q: "q = p + 1 + k" using h(2) by (simp add: k_def)
  have k: "k < nat (int (searchsorted_left S (E ! p)) - int p - 1)" using h(2,3) by (simp add: k_def)
  have m: "int p + 1 < int (searchsorted_left S (E ! p))" using h(2,3) by simp
  show "(x, y) \<in> set (raw_pairs S E I)"
    unfolding raw_pairs_def using h(1,4,5) k m unfolding q by auto
qed

lemma searchsorted_left_sorted:
  "sorted S \<Longrightarrow> q < length S \<Longrightarrow> q < searchsorted_left S v \<longleftrightarrow> S ! q < v"
proof (induction S arbitrary: q)
  case Nil
  then show ?case by simp
next
  case (Cons x xs)
  have so: "sorted xs" and ge: "\<forall>y \<in> set xs. x \<le> y" using Cons.prems(1) by auto
  show ?case
  proof (cases "x < v")
    case True
    show ?thesis
    proof (cases q)
      case 0
      then show ?thesis using True by (simp add: searchsorted_left_def)
    next
      case (Suc r)
      then have "r < length xs" using Cons.prems(2) by simp
      from Cons.IH [OF so this] show ?thesis using True Suc by (simp add: searchsorted_left_def)
    qed
  next
    case False
    then have "\<forall>y \<in> set xs. \<not> y < v" using ge by auto
    then have z: "filter (\<lambda>y. y < v) xs = []" by (simp add: filter_empty_conv)
    have "\<not> (x # xs) ! q < v"
      using False ge Cons.prems(2) by (cases q) (auto simp: not_less intro: order_trans)
    then show ?thesis using False z by (simp add: searchsorted_left_def)
  qed
qed

lemma searchsorted_left_le: "searchsorted_left S v \<le> length S"
  by (simp add: searchsorted_left_def)

lemma tagged_ids_nth:
  "k < n1 \<Longrightarrow> tagged_ids n1 n2 ! k = - (int k + 1)"
  "j < n2 \<Longrightarrow> tagged_ids n1 n2 ! (n1 + j) = int j + 1"
proof -
  have l: "length (map (\<lambda>i. - int i) [1..<n1 + 1]) = n1" by simp
  show "k < n1 \<Longrightarrow> tagged_ids n1 n2 ! k = - (int k + 1)"
    unfolding tagged_ids_def by (simp add: nth_append del: upt_Suc)
  show "j < n2 \<Longrightarrow> tagged_ids n1 n2 ! (n1 + j) = int j + 1"
    unfolding tagged_ids_def using nth_append_length_plus [of "map (\<lambda>i. - int i) [1..<n1 + 1]" _ j]
    by (simp del: upt_Suc)
qed


lemma decode_pair_ids:
  "decode_pair (- (int i + 1), int j + 1) = (int i, int j)"
  "decode_pair (int j + 1, - (int i + 1)) = (int i, int j)"
  by (simp_all add: decode_pair_def min_def max_def)

lemma joined_pairs_set:
  assumes l1: "length ends1 = length starts1" and l2: "length ends2 = length starts2"
    and wf1: "\<forall>i < length starts1. starts1 ! i \<le> ends1 ! i"
    and wf2: "\<forall>j < length starts2. starts2 ! j \<le> ends2 ! j"
  shows "(a, b) \<in> set (joined_pairs starts1 ends1 starts2 ends2) \<longleftrightarrow>
         0 \<le> a \<and> a < int (length starts1) \<and> 0 \<le> b \<and> b < int (length starts2)
         \<and> starts1 ! nat a < ends2 ! nat b \<and> starts2 ! nat b < ends1 ! nat a"
proof -
  let ?n1 = "length starts1" and ?n2 = "length starts2"
  let ?starts = "starts1 @ starts2" and ?ends = "ends1 @ ends2"
  let ?ids = "tagged_ids ?n1 ?n2"
  let ?order = "sorted_order ?starts ?ends"
  let ?S = "take_idx ?starts ?order" and ?E = "take_idx ?ends ?order" and ?I = "take_idx ?ids ?order"
  let ?n = "?n1 + ?n2"
  let ?key = "\<lambda>k. [?starts ! k, ?ends ! k]"
  have lo: "length ?order = ?n" by simp
  have lS: "length ?S = ?n" by (simp add: take_idx_def)
  have nthS: "?S ! p = ?starts ! (?order ! p)" "?E ! p = ?ends ! (?order ! p)"
    "?I ! p = ?ids ! (?order ! p)" if "p < ?n" for p
    using that by (simp_all add: take_idx_def)
  have sortedS: "sorted ?S"
    unfolding take_idx_sorted_pairs by (rule sorted_fst_of_keys [OF sorted_sorted_pairs])
  have in_rng: "?order ! p < ?n" if "p < ?n" for p
    using that nth_mem [of p ?order] by simp
  have dist: "distinct ?order" by (simp add: sorted_order_def)
  have keys: "?key (?order ! p) \<le> ?key (?order ! q)" if "p < q" "q < ?n" for p q
  proof -
    have "sorted (map ?key ?order)" by (simp add: sorted_order_def)
    then have "map ?key ?order ! p \<le> map ?key ?order ! q"
      using that by (intro sorted_nth_mono) simp_all
    then show ?thesis using that by simp
  qed
  have pos: "\<exists>p < ?n. ?order ! p = u" if "u < ?n" for u
  proof -
    have "u \<in> set ?order" using that by simp
    then show ?thesis unfolding in_set_conv_nth by (simp only: lo) 
  qed
  have st1: "?starts ! i = starts1 ! i" "?ends ! i = ends1 ! i" "?ids ! i = - (int i + 1)"
    if "i < ?n1" for i
    using that l1 by (simp_all add: nth_append tagged_ids_nth)
  have st2: "?starts ! (?n1 + j) = starts2 ! j" "?ends ! (?n1 + j) = ends2 ! j"
    "?ids ! (?n1 + j) = int j + 1" if "j < ?n2" for j
    using that l1 by (simp_all add: nth_append tagged_ids_nth)
  have mem: "(a, b) \<in> set (joined_pairs starts1 ends1 starts2 ends2) \<longleftrightarrow>
      (\<exists>p q. p < q \<and> q < ?n \<and> ?starts ! (?order ! q) < ?ends ! (?order ! p)
          \<and> ?ids ! (?order ! p) * ?ids ! (?order ! q) \<le> 0
          \<and> (a, b) = decode_pair (?ids ! (?order ! p), ?ids ! (?order ! q)))"
    (is "?L \<longleftrightarrow> ?R")
  proof
    assume ?L
    then obtain x y where xy: "(x, y) \<in> set (raw_pairs ?S ?E ?I)" "x * y \<le> 0"
      "(a, b) = decode_pair (x, y)"
      by (auto simp: joined_pairs_def Let_def)
    then obtain p q where pq: "p < length ?S" "p < q" "q < searchsorted_left ?S (?E ! p)"
      "x = ?I ! p" "y = ?I ! q"
      unfolding raw_pairs_set by blast
    have qn: "q < ?n" using pq(3) searchsorted_left_le [of ?S "?E ! p"] lS by linarith
    then have pn: "p < ?n" using pq(2) by simp
    have "?S ! q < ?E ! p"
      using searchsorted_left_sorted [OF sortedS, of q "?E ! p"] qn pq(3) lS by simp
    then show ?R
      using pq(2) qn xy(2,3) unfolding pq(4,5) nthS [OF pn] nthS [OF qn] by blast
  next
    assume ?R
    then obtain p q where pq: "p < q" "q < ?n" "?starts ! (?order ! q) < ?ends ! (?order ! p)"
      "?ids ! (?order ! p) * ?ids ! (?order ! q) \<le> 0"
      "(a, b) = decode_pair (?ids ! (?order ! p), ?ids ! (?order ! q))"
      by blast
    have pn: "p < ?n" using pq(1,2) by simp
    have "?S ! q < ?E ! p" using pq(3) by (simp only: nthS [OF pn] nthS [OF pq(2)])
    then have "q < searchsorted_left ?S (?E ! p)"
      using searchsorted_left_sorted [OF sortedS, of q "?E ! p"] pq(2) lS by simp
    then have "(?I ! p, ?I ! q) \<in> set (raw_pairs ?S ?E ?I)"
      unfolding raw_pairs_set using pn pq(1) lS by auto
    moreover have "?I ! p * ?I ! q \<le> 0" using pq(4) by (simp only: nthS [OF pn] nthS [OF pq(2)])
    moreover have "(a, b) = decode_pair (?I ! p, ?I ! q)"
      using pq(5) by (simp only: nthS [OF pn] nthS [OF pq(2)])
    ultimately show ?L
      unfolding joined_pairs_def Let_def by force
  qed
  have split: "(\<exists>i < ?n1. u = i) \<or> (\<exists>j < ?n2. u = ?n1 + j)" if "u < ?n" for u
  proof (cases "u < ?n1")
    case True
    then show ?thesis by blast
  next
    case False
    then have "u - ?n1 < ?n2" "u = ?n1 + (u - ?n1)" using that by simp_all
    then show ?thesis by blast
  qed
  show ?thesis
  proof
    assume "(a, b) \<in> set (joined_pairs starts1 ends1 starts2 ends2)"
    then obtain p q where pq: "p < q" "q < ?n" "?starts ! (?order ! q) < ?ends ! (?order ! p)"
      "?ids ! (?order ! p) * ?ids ! (?order ! q) \<le> 0"
      "(a, b) = decode_pair (?ids ! (?order ! p), ?ids ! (?order ! q))"
      unfolding mem by blast
    have pn: "p < ?n" using pq(1,2) by simp
    define u v where "u = ?order ! p" and "v = ?order ! q"
    have un: "u < ?n" and vn: "v < ?n" using in_rng [OF pn] in_rng [OF pq(2)] by (simp_all add: u_def v_def)
    have k: "?key u \<le> ?key v" using keys [OF pq(1,2)] by (simp add: u_def v_def)
    note h = pq(3,4,5) [folded u_def v_def]
    from split [OF un] split [OF vn] show "0 \<le> a \<and> a < int ?n1 \<and> 0 \<le> b \<and> b < int ?n2
         \<and> starts1 ! nat a < ends2 ! nat b \<and> starts2 ! nat b < ends1 ! nat a"
    proof (elim disjE exE conjE)
      fix i i' assume i: "i < ?n1" "u = i" and i': "i' < ?n1" "v = i'"
      have "0 < (- (int i + 1)) * (- (int i' + 1))"
        unfolding minus_mult_minus by (intro mult_pos_pos) simp_all
      then show ?thesis using h(2) unfolding i(2) i'(2) st1 [OF i(1)] st1 [OF i'(1)] by linarith
    next
      fix j j' assume j: "j < ?n2" "u = ?n1 + j" and j': "j' < ?n2" "v = ?n1 + j'"
      have "0 < (int j + 1) * (int j' + 1)" by (intro mult_pos_pos) simp_all
      then show ?thesis using h(2) unfolding j(2) j'(2) st2 [OF j(1)] st2 [OF j'(1)] by linarith
    next
      fix i j assume i: "i < ?n1" "u = i" and j: "j < ?n2" "v = ?n1 + j"
      have ab: "a = int i" "b = int j"
        using h(3) unfolding i(2) j(2) st1 [OF i(1)] st2 [OF j(1)] decode_pair_ids by simp_all
      have o1: "starts2 ! j < ends1 ! i"
        using h(1) unfolding i(2) j(2) st1 [OF i(1)] st2 [OF j(1)] .
      have "[starts1 ! i, ends1 ! i] \<le> [starts2 ! j, ends2 ! j]"
        using k unfolding i(2) j(2) st1 [OF i(1)] st2 [OF j(1)] .
      then have "starts1 ! i < ends2 ! j" using o1 wf2 j(1) by (auto dest: spec [of _ j])
      then show ?thesis using o1 i(1) j(1) by (simp add: ab)
    next
      fix i j assume j: "j < ?n2" "u = ?n1 + j" and i: "i < ?n1" "v = i"
      have ab: "a = int i" "b = int j"
        using h(3) unfolding i(2) j(2) st1 [OF i(1)] st2 [OF j(1)] decode_pair_ids by simp_all
      have o1: "starts1 ! i < ends2 ! j"
        using h(1) unfolding i(2) j(2) st1 [OF i(1)] st2 [OF j(1)] .
      have "[starts2 ! j, ends2 ! j] \<le> [starts1 ! i, ends1 ! i]"
        using k unfolding i(2) j(2) st1 [OF i(1)] st2 [OF j(1)] .
      then have "starts2 ! j < ends1 ! i" using o1 wf1 i(1) by (auto dest: spec [of _ i])
      then show ?thesis using o1 i(1) j(1) by (simp add: ab)
    qed
  next
    assume r: "0 \<le> a \<and> a < int ?n1 \<and> 0 \<le> b \<and> b < int ?n2
         \<and> starts1 ! nat a < ends2 ! nat b \<and> starts2 ! nat b < ends1 ! nat a"
    define i j where "i = nat a" and "j = nat b"
    have i: "i < ?n1" and j: "j < ?n2" and ab: "a = int i" "b = int j"
      and o: "starts1 ! i < ends2 ! j" "starts2 ! j < ends1 ! i"
      using r by (auto simp: i_def j_def)
    obtain p where p: "p < ?n" "?order ! p = i" using pos [of i] i by auto
    obtain q where q: "q < ?n" "?order ! q = ?n1 + j" using pos [of "?n1 + j"] j by auto
    have "p \<noteq> q" using p(2) q(2) i by auto
    then consider "p < q" | "q < p" by linarith
    then show "(a, b) \<in> set (joined_pairs starts1 ends1 starts2 ends2)"
    proof cases
      case 1
      have m: "?ids ! (?order ! p) * ?ids ! (?order ! q) \<le> 0"
        unfolding p(2) q(2) st1 [OF i] st2 [OF j] by (simp add: mult_le_0_iff)
      have s: "?starts ! (?order ! q) < ?ends ! (?order ! p)"
        unfolding p(2) q(2) st1 [OF i] st2 [OF j] by (rule o(2))
      have d: "(a, b) = decode_pair (?ids ! (?order ! p), ?ids ! (?order ! q))"
        unfolding p(2) q(2) st1 [OF i] st2 [OF j] decode_pair_ids ab ..
      show ?thesis unfolding mem using 1 q(1) s m d by blast
    next
      case 2
      have m: "?ids ! (?order ! q) * ?ids ! (?order ! p) \<le> 0"
        unfolding p(2) q(2) st1 [OF i] st2 [OF j] by (simp add: mult_le_0_iff)
      have s: "?starts ! (?order ! p) < ?ends ! (?order ! q)"
        unfolding p(2) q(2) st1 [OF i] st2 [OF j] by (rule o(1))
      have d: "(a, b) = decode_pair (?ids ! (?order ! q), ?ids ! (?order ! p))"
        unfolding p(2) q(2) st1 [OF i] st2 [OF j] decode_pair_ids ab ..
      show ?thesis unfolding mem using 2 p(1) s m d by blast
    qed
  qed
qed


text \<open>Claim C3.  For well-formed inputs (each \<open>ends\<close> array as long as its
  \<open>starts\<close> array, every end at or above its start) the Overlap Join returns, and a pair
  \<open>(a, b)\<close> is in its output exactly when \<open>a\<close> is a position of set 1, \<open>b\<close> a
  position of set 2, \<open>start1[a] < end2[b]\<close> and \<open>start2[b] < end1[a]\<close>.  Every pair
  therefore joins an interval of set 1 with one of set 2 (never two of the same set, never
  an interval with itself), and the output is ascending by \<open>(id1, id2)\<close>.\<close>

theorem overlap_intervals_complete:
  assumes "length ends1 = length starts1" and "length ends2 = length starts2"
    and "\<forall>i < length starts1. starts1 ! i \<le> ends1 ! i"
    and "\<forall>j < length starts2. starts2 ! j \<le> ends2 ! j"
  shows "\<exists>out. overlap_intervals starts1 ends1 starts2 ends2 = Inr out
       \<and> (\<forall>a b. (a, b) \<in> set out \<longleftrightarrow>
             0 \<le> a \<and> a < int (length starts1) \<and> 0 \<le> b \<and> b < int (length starts2)
             \<and> starts1 ! nat a < ends2 ! nat b \<and> starts2 ! nat b < ends1 ! nat a)
       \<and> sorted_wrt (\<lambda>p q. fst p < fst q \<or> (fst p = fst q \<and> snd p \<le> snd q)) out"
proof -
  let ?D = "joined_pairs starts1 ends1 starts2 ends2"
  let ?out = "sorted_pairs (map fst ?D) (map snd ?D)"
  have len: "length (ends1 @ ends2) = length (starts1 @ starts2)" using assms(1,2) by simp
  have 1: "overlap_intervals starts1 ends1 starts2 ends2 = Inr ?out"
    by (rule overlap_intervals_unfold [OF len])
  have "set ?out = set (zip (map fst ?D) (map snd ?D))"
    by (rule set_sorted_pairs) simp
  then have s: "set ?out = set ?D" by (simp add: zip_map_fst_snd_id)
  have 2: "(a, b) \<in> set ?out \<longleftrightarrow>
             0 \<le> a \<and> a < int (length starts1) \<and> 0 \<le> b \<and> b < int (length starts2)
             \<and> starts1 ! nat a < ends2 ! nat b \<and> starts2 ! nat b < ends1 ! nat a" for a b
    unfolding s by (rule joined_pairs_set [OF assms])
  have "sorted (map (\<lambda>p. [fst p, snd p]) ?out)" by (rule sorted_sorted_pairs)
  then have "sorted_wrt (\<lambda>p q. [fst p, snd p] \<le> [fst q, snd q]) ?out"
    by (simp only: sorted_map)
  then have 3: "sorted_wrt (\<lambda>p q. fst p < fst q \<or> (fst p = fst q \<and> snd p \<le> snd q)) ?out"
    by (rule sorted_wrt_mono_rel [rotated]) auto
  show ?thesis using 1 2 3 by blast
qed

text \<open>The example of the specification: \<open>(1,5)\<close> against \<open>(0,2), (4,6), (6,8)\<close>.\<close>

theorem overlap_intervals_complete_witness:
  "overlap_intervals [1] [5] [0, 4, 6] [2, 6, 8] = Inr [(0, 0), (0, 1)]
   \<and> (0, 1) \<in> set [(0, 0), (0, 1 :: int)]
   \<and> [1 :: int] ! nat 0 < [2, 6, 8 :: int] ! nat 1 \<and> [0, 4, 6 :: int] ! nat 1 < [5] ! nat 0
   \<and> (0, 2) \<notin> set [(0, 0), (0, 1 :: int)]
   \<and> \<not> [0, 4, 6 :: int] ! nat 2 < [5] ! nat 0"
proof -
  have e: "overlap_intervals [1] [5] [0, 4, 6] [2, 6, 8] = Inr [(0, 0), (0, 1)]"
    by code_simp
  have "\<exists>out. overlap_intervals [1] [5] [0, 4, 6] [2, 6, 8] = Inr out
       \<and> (\<forall>a b. (a, b) \<in> set out \<longleftrightarrow>
             0 \<le> a \<and> a < int (length [1 :: int]) \<and> 0 \<le> b \<and> b < int (length [0, 4, 6 :: int])
             \<and> [1 :: int] ! nat a < [2, 6, 8 :: int] ! nat b \<and> [0, 4, 6 :: int] ! nat b < [5 :: int] ! nat a)
       \<and> sorted_wrt (\<lambda>p q. fst p < fst q \<or> (fst p = fst q \<and> snd p \<le> snd q)) out"
    by (rule overlap_intervals_complete) (simp_all add: less_Suc_eq)
  then have h: "\<forall>a b. (a, b) \<in> set [(0 :: int, 0 :: int), (0, 1)] \<longleftrightarrow>
             0 \<le> a \<and> a < int (length [1 :: int]) \<and> 0 \<le> b \<and> b < int (length [0, 4, 6 :: int])
             \<and> [1 :: int] ! nat a < [2, 6, 8 :: int] ! nat b \<and> [0, 4, 6 :: int] ! nat b < [5 :: int] ! nat a"
    unfolding e by blast
  from h [rule_format, of 0 1] h [rule_format, of 0 2] e show ?thesis by simp
qed

section \<open>Empty interval collections\<close>

text \<open>The Nearest-Neighbor Finder does not return on empty collections: with no candidate
  at all, lines 446--455 still build one run \<open>[0, 1)\<close> and index row 0 of an array
  with no rows.  (\<^verbatim>\<open>np.argsort\<close> of an empty array is empty.)\<close>

lemma closest_intervals_empty_fails:
  assumes "asort [] = []"
  shows "closest_intervals asort [] [] [] [] 1 None False False False = Inl IndexError"
proof -
  have "closest_intervals asort [] [] [] [] 1 None False False False
      = closest_intervals stable_argsort [] [] [] [] 1 None False False False"
    using assms
    by (simp add: closest_intervals_def closest_intervals_nooverlap_def upstream_ids_of_def
        downstream_ids_of_def ends2_sort_order_def starts2_sort_order_def stable_argsort_def)
  also have "\<dots> = Inl IndexError" by code_simp
  finally show ?thesis .
qed

text \<open>Claim C2, as stated, fails for the Complement Engine: the complement of an empty
  collection within \<open>(0, 15)\<close> is the one gap \<open>(0, 15)\<close>, not an empty output.\<close>

theorem complement_of_empty_is_not_empty:
  "complement_intervals [] [] (0, 15) = Inr ([0], [15])
   \<and> ([0 :: int], [15 :: int]) \<noteq> ([], [])"
  by code_simp

text \<open>Claim C2, amended.  On empty interval collections the Range Expander, the Overlap
  Join and the Merger return empty outputs, for every \<open>min_dist\<close>; the Complement
  Engine returns the whole of the bounds as its one gap \<open>(lo, hi)\<close> when \<open>lo < hi\<close>
  and no gap otherwise.\<close>

theorem empty_collections:
  "arange_multi (Array []) (Some []) None = Inr []
   \<and> arange_multi (Array []) None (Some []) = Inr []
   \<and> overlap_intervals [] [] [] [] = Inr []
   \<and> merge_intervals [] [] min_dist = Inr ([], [], [])
   \<and> complement_intervals [] [] (lo, hi) = Inr (if lo < hi then ([lo], [hi]) else ([], []))"
proof -
  have 1: "arange_multi (Array []) (Some []) None = Inr []" by code_simp
  have 2: "arange_multi (Array []) None (Some []) = Inr []" by code_simp
  have 3: "overlap_intervals [] [] [] [] = Inr []" by code_simp
  have sp: "sorted_pairs [] [] = []" by (simp add: sorted_pairs_def sorted_order_def)
  have 4: "merge_intervals [] [] min_dist = Inr ([], [], [])"
    by (simp add: merge_intervals_sweep sp sweep_ids_def sweep_spans_def)
  have "trim_gaps [(lo, hi)] = (if lo < hi then [(lo, hi)] else [])"
    by (simp add: trim_gaps_cases)
  then have 5: "complement_intervals [] [] (lo, hi) = Inr (if lo < hi then ([lo], [hi]) else ([], []))"
    using complement_intervals_gaps [of "[]" "[]" lo hi]
    by (simp add: sp sweep_spans_def clip_def)
  show ?thesis using 1 2 3 4 5 by blast
qed

section \<open>Properties of the Nearest-Neighbor Finder\<close>



lemma where_nat_Cons:
  "where_nat (b # bs) = (if b then [0] else []) @ map Suc (where_nat bs)"
proof -
  have "[0..<length (b # bs)] = 0 # map Suc [0..<length bs]"
    by (simp add: upt_conv_Cons map_Suc_upt del: upt_Suc)
  then show ?thesis by (simp add: where_nat_def filter_map comp_def del: upt_Suc)
qed

lemma where_nat_Nil [simp]: "where_nat [] = []"
  by (simp add: where_nat_def)


lemma where_nat_False [simp]: "where_nat (replicate n False) = []"
  by (induction n) (auto simp: where_nat_Cons)














lemma length_adj_mask [simp]: "length (adj_mask C) = length C - 1"
  by (induction C rule: adj_mask.induct) auto








lemma sort_key_indices:
  "mset (sort_key f [0..<n]) = mset [0..<n]" "set (sort_key f [0..<n]) = {0..<n}"
  by simp_all



text \<open>The final sort of the candidates passes the tie-break sequence of set 2 itself as a
  key (line 440), not the tie-break value of each candidate: with one query and three
  set-2 intervals there are two candidates and three tie-break values, and
  \<^verbatim>\<open>np.lexsort\<close> refuses the keys.\<close>

lemma closest_intervals_tie_key_shape:
  "closest_intervals asort [5] [6] [0, 2, 8] [1, 3, 9] 1 (Some [3, 2, 1]) False False False
     = Inl (ValueError Numpy)"
proof -
  have "closest_intervals asort [5] [6] [0, 2, 8] [1, 3, 9] 1 (Some [3, 2, 1]) False False False
      = closest_intervals stable_argsort [5] [6] [0, 2, 8] [1, 3, 9] 1 (Some [3, 2, 1]) False False False"
    by (simp add: closest_intervals_def closest_intervals_nooverlap_def upstream_ids_of_def
        downstream_ids_of_def ends2_sort_order_def starts2_sort_order_def)
  also have "\<dots> = Inl (ValueError Numpy)" by code_simp
  finally show ?thesis .
qed




end
